theory Spec2Isabelle
  imports Complex_Main "HOL-Library.Word" "HOL-Library.Log_Nat"
begin

unbundle bit_operations_syntax

section \<open>Data model of \<^verbatim>\<open>moteus_protocol.h\<close>\<close>

type_synonym byte = "8 word"

text \<open>\<^verbatim>\<open>enum class Resolution\<close>.\<close>

datatype Resolution = kInt8 | kInt16 | kInt32 | kFloat | kIgnore

text \<open>
  The exceptions the header throws, one constructor per \<^verbatim>\<open>throw\<close> site, and the two
  situations in which C++ gives the program no defined behaviour:
  \<^item> \<open>Overflow\<close>: \<^verbatim>\<open>std::runtime_error("overflow")\<close> in \<^verbatim>\<open>WriteCanFrame::Write\<close>;
  \<^item> \<open>IgnoredResolution\<close>: \<^verbatim>\<open>std::runtime_error("Attempt to write ignored resolution")\<close>;
  \<^item> \<open>Unsupported\<close>: \<^verbatim>\<open>std::logic_error("unsupported")\<close> in \<^verbatim>\<open>WriteCombiner::MaybeWrite\<close>;
  \<^item> \<open>Unreachable\<close>: \<^verbatim>\<open>std::logic_error("unreachable")\<close>;
  \<^item> \<open>Overrun\<close>: \<^verbatim>\<open>std::runtime_error("overrun")\<close> in \<^verbatim>\<open>MultiplexParser::Read\<close>;
  \<^item> \<open>OutOfBounds\<close>: an index past the end of an array or vector;
  \<^item> \<open>UndefinedConversion\<close>: a floating value converted to an integer type that cannot
    hold its truncation;
  \<^item> \<open>AssertionFailed\<close>: a failed \<^verbatim>\<open>assert\<close>.
\<close>

datatype error =
  Overflow | IgnoredResolution | Unsupported | Unreachable | Overrun
  | OutOfBounds | UndefinedConversion | AssertionFailed

text \<open>
  A member function either returns or throws, and in both cases it leaves the object it
  works on in some state: every stateful operation yields an outcome and the state.
\<close>

datatype 'a outcome = Returned 'a | Threw error

text \<open>\<^verbatim>\<open>struct CanFrame { uint8_t data[64] = {}; uint8_t size = 0; }\<close>.\<close>

record CanFrame =
  fdata :: "byte list"
  fsize :: "8 word"

definition empty_frame :: CanFrame where
  "empty_frame = \<lparr>fdata = replicate 64 0, fsize = 0\<rparr>"

text \<open>The bytes a frame holds: the first \<open>size\<close> bytes of its array.\<close>

definition frame_bytes :: "CanFrame \<Rightarrow> byte list" where
  "frame_bytes f = take (unat (fsize f)) (fdata f)"

subsection \<open>Object representations\<close>

text \<open>
  The little-endian object representation of an \<open>n\<close>-byte integer type holding \<open>v\<close>
  (the conversion \<^verbatim>\<open>static_cast<T>(value_in)\<close> reduces modulo \<open>2 ^ (8 * n)\<close>), and the
  unsigned and signed readings of a little-endian byte sequence.
\<close>

fun le_bytes :: "nat \<Rightarrow> int \<Rightarrow> byte list" where
  "le_bytes 0 v = []"
| "le_bytes (Suc n) v = word_of_int v # le_bytes n (v div 256)"

fun le_val :: "byte list \<Rightarrow> int" where
  "le_val [] = 0"
| "le_val (b # bs) = uint b + 256 * le_val bs"

definition to_signed :: "nat \<Rightarrow> int \<Rightarrow> int" where
  "to_signed n u = (if 2 ^ (8 * n - 1) \<le> u then u - 2 ^ (8 * n) else u)"

subsection \<open>\<^verbatim>\<open>WriteCanFrame::Write\<close>\<close>

text \<open>\<^verbatim>\<open>std::memcpy(&data_[pos], src, n)\<close> on the array.\<close>

fun memcpy :: "byte list \<Rightarrow> nat \<Rightarrow> byte list \<Rightarrow> byte list" where
  "memcpy xs pos [] = xs"
| "memcpy xs pos (b # bs) = memcpy (xs[pos := b]) (Suc pos) bs"

text \<open>
  \<^verbatim>\<open>Write<T>(value)\<close>, given the object representation \<open>bs\<close> of the converted value
  (\<open>sizeof(value) = length bs\<close>).
\<close>

definition Write :: "byte list \<Rightarrow> CanFrame \<Rightarrow> unit outcome \<times> CanFrame" where
  "Write bs f =
     (if length bs + unat (fsize f) > 64 then (Threw Overflow, f)
      else (Returned (),
            f\<lparr>fdata := memcpy (fdata f) (unat (fsize f)) bs,
              fsize := fsize f + of_nat (length bs)\<rparr>))"

text \<open>\<^verbatim>\<open>Write<int8_t>\<close>, \<^verbatim>\<open>Write<int16_t>\<close>, \<^verbatim>\<open>Write<int32_t>\<close> on an integer argument.\<close>

definition Write_int :: "nat \<Rightarrow> int \<Rightarrow> CanFrame \<Rightarrow> unit outcome \<times> CanFrame" where
  "Write_int n v f = Write (le_bytes n v) f"

subsection \<open>\<^verbatim>\<open>WriteCombiner\<close>\<close>

text \<open>
  \<^verbatim>\<open>template <size_t N> class WriteCombiner\<close>: \<open>N\<close> is the length of \<open>wc_resolutions\<close>. The
  combiner only points at the frame writer, which the caller also writes to between two
  calls, so the frame is passed to each call and returned from it.
\<close>

record WriteCombiner =
  wc_base_command :: "8 word"
  wc_start_register :: "32 word"
  wc_resolutions :: "Resolution list"
  wc_current_resolution :: Resolution
  wc_offset :: nat

text \<open>The constructor; \<open>current_resolution_ = kIgnore\<close> and \<open>offset_ = 0\<close> by default.\<close>

definition WriteCombiner_new :: "8 word \<Rightarrow> 32 word \<Rightarrow> Resolution list \<Rightarrow> WriteCombiner" where
  "WriteCombiner_new base_command start_register resolutions =
     \<lparr>wc_base_command = base_command, wc_start_register = start_register,
      wc_resolutions = resolutions, wc_current_resolution = kIgnore, wc_offset = 0\<rparr>"

text \<open>The destructor calls \<^verbatim>\<open>::abort()\<close> when \<open>offset_ != N\<close>.\<close>

definition destructor_aborts :: "WriteCombiner \<Rightarrow> bool" where
  "destructor_aborts c \<longleftrightarrow> wc_offset c \<noteq> length (wc_resolutions c)"

text \<open>
  The run-length scan
  \<^verbatim>\<open>for (size_t i = this_offset + 1; i < N && resolutions_[i] == new_resolution; i++) count++;\<close>
\<close>

function count_run :: "Resolution list \<Rightarrow> Resolution \<Rightarrow> nat \<Rightarrow> nat \<Rightarrow> nat" where
  "count_run rs r i count =
     (if i < length rs \<and> rs ! i = r then count_run rs r (Suc i) (Suc count) else count)"
  by pat_completeness auto
termination
  by (relation "measure (\<lambda>(rs, r, i, count). length rs - i)") auto

declare count_run.simps [simp del]

text \<open>The \<^verbatim>\<open>switch (new_resolution)\<close> inside \<open>MaybeWrite\<close>.\<close>

fun resolution_command :: "Resolution \<Rightarrow> error + 8 word" where
  "resolution_command kInt8 = Inr 0x00"
| "resolution_command kInt16 = Inr 0x04"
| "resolution_command kInt32 = Inr 0x08"
| "resolution_command kFloat = Inr 0x0c"
| "resolution_command kIgnore = Inl Unreachable"

text \<open>
  The header: \<^verbatim>\<open>Write<int8_t>(write_command + count)\<close> when \<open>count <= 3\<close>, otherwise
  \<^verbatim>\<open>Write<int8_t>(write_command); Write<int8_t>(count)\<close>. The second write of the long form
  is not reached when the first throws.
\<close>

definition write_header :: "8 word \<Rightarrow> nat \<Rightarrow> CanFrame \<Rightarrow> unit outcome \<times> CanFrame" where
  "write_header write_command count f =
     (if count \<le> 3 then Write_int 1 (sint write_command + int count) f
      else (case Write_int 1 (sint write_command) f of
              (Threw e, f1) \<Rightarrow> (Threw e, f1)
            | (Returned _, f1) \<Rightarrow> Write_int 1 (int count) f1))"

text \<open>
  \<^verbatim>\<open>bool MaybeWrite()\<close>. \<open>offset_++\<close> comes first; \<open>resolutions_[this_offset]\<close> with
  \<open>this_offset >= N\<close> is past the end of the \<^verbatim>\<open>std::array\<close>. \<open>base_command_ + code\<close> is
  stored back into an \<open>int8_t\<close>, so it is an addition of bytes.
\<close>

definition MaybeWrite :: "WriteCombiner \<Rightarrow> CanFrame \<Rightarrow> bool outcome \<times> WriteCombiner \<times> CanFrame" where
  "MaybeWrite c f =
     (let this_offset = wc_offset c;
          c1 = c\<lparr>wc_offset := Suc this_offset\<rparr>
      in if length (wc_resolutions c) \<le> this_offset then (Threw OutOfBounds, c1, f)
         else if wc_current_resolution c1 = wc_resolutions c ! this_offset
         then (Returned (wc_current_resolution c1 \<noteq> kIgnore), c1, f)
         else
           let new_resolution = wc_resolutions c ! this_offset;
               c2 = c1\<lparr>wc_current_resolution := new_resolution\<rparr>
           in if new_resolution = kIgnore then (Returned False, c2, f)
              else
                let count = count_run (wc_resolutions c) new_resolution (this_offset + 1) 1
                in case resolution_command new_resolution of
                     Inl e \<Rightarrow> (Threw e, c2, f)
                   | Inr code \<Rightarrow>
                       (case write_header (wc_base_command c + code) count f of
                          (Threw e, f2) \<Rightarrow> (Threw e, c2, f2)
                        | (Returned _, f2) \<Rightarrow>
                            if unat (wc_start_register c) + this_offset > 127
                            then (Threw Unsupported, c2, f2)
                            else (case Write_int 1 (int (unat (wc_start_register c) + this_offset)) f2 of
                                    (Threw e, f3) \<Rightarrow> (Threw e, c2, f3)
                                  | (Returned _, f3) \<Rightarrow> (Returned True, c2, f3))))"

text \<open>
  The combiner after a series of calls, whether each returned or threw; \<open>fs\<close> lists the
  frame as it stood at each call (the caller appends values in between).
\<close>

fun combiner_after :: "WriteCombiner \<Rightarrow> CanFrame list \<Rightarrow> WriteCombiner" where
  "combiner_after c [] = c"
| "combiner_after c (f # fs) = combiner_after (fst (snd (MaybeWrite c f))) fs"

text \<open>
  \<^verbatim>\<open>for (int i = 0; i < n; i++) { combiner.MaybeWrite(); }\<close> as in \<open>EmitQueryCommand\<close>; an
  exception ends the loop.
\<close>

fun MaybeWrite_times :: "nat \<Rightarrow> WriteCombiner \<Rightarrow> CanFrame \<Rightarrow> unit outcome \<times> WriteCombiner \<times> CanFrame" where
  "MaybeWrite_times 0 c f = (Returned (), c, f)"
| "MaybeWrite_times (Suc n) c f =
     (case MaybeWrite c f of
        (Threw e, c', f') \<Rightarrow> (Threw e, c', f')
      | (Returned _, c', f') \<Rightarrow> MaybeWrite_times n c' f')"

text \<open>
  The header as the specification words it (section 4.3, step 3), to be compared with
  \<open>write_header\<close>: one byte, the opcode plus the count, when \<open>count \<le> 3\<close>; otherwise the
  opcode byte followed by a count byte.
\<close>

definition spec_header :: "8 word \<Rightarrow> nat \<Rightarrow> byte list" where
  "spec_header write_command count =
     (if count \<le> 3 then [write_command + of_nat count] else [write_command, of_nat count])"

subsection \<open>\<^verbatim>\<open>MultiplexParser\<close>\<close>

text \<open>
  The parser reads \<open>data_[0 .. size_ - 1]\<close>; \<open>mp_data\<close> is the array \<open>data_\<close> points at, and
  an index at or past its end has no defined behaviour.
\<close>

record MultiplexParser =
  mp_data :: "byte list"
  mp_size :: "8 word"
  mp_offset :: nat
  mp_remaining :: int
  mp_current_resolution :: Resolution
  mp_current_register :: "32 word"

definition MultiplexParser_new :: "byte list \<Rightarrow> 8 word \<Rightarrow> MultiplexParser" where
  "MultiplexParser_new data sz =
     \<lparr>mp_data = data, mp_size = sz, mp_offset = 0, mp_remaining = 0,
      mp_current_resolution = kIgnore, mp_current_register = 0\<rparr>"

fun ResolutionSize :: "Resolution \<Rightarrow> nat" where
  "ResolutionSize kInt8 = 1"
| "ResolutionSize kInt16 = 2"
| "ResolutionSize kInt32 = 4"
| "ResolutionSize kFloat = 4"
| "ResolutionSize kIgnore = 1"

text \<open>The \<^verbatim>\<open>switch (id)\<close> of \<open>next\<close>, with its fall-through result \<open>kInt8\<close>.\<close>

definition resolution_of_id :: "nat \<Rightarrow> Resolution" where
  "resolution_of_id i =
     (if i = 0 then kInt8 else if i = 1 then kInt16 else if i = 2 then kInt32
      else if i = 3 then kFloat else kInt8)"

type_synonym entry = "bool \<times> 32 word \<times> Resolution"

text \<open>\<^verbatim>\<open>std::make_tuple(false, 0, Resolution::kInt8)\<close>.\<close>

definition no_entry :: entry where
  "no_entry = (False, 0, kInt8)"

text \<open>
  The end of the reply branch of \<open>next\<close>, from \<^verbatim>\<open>current_register_ = data_[offset_++]\<close> on,
  for a count that is not zero.
\<close>

definition begin_run :: "MultiplexParser \<Rightarrow> int \<Rightarrow> error + entry \<times> MultiplexParser" where
  "begin_run p count =
     (if length (mp_data p) \<le> mp_offset p then Inl OutOfBounds
      else
        let p1 = p\<lparr>mp_current_register := ucast (mp_data p ! mp_offset p),
                   mp_offset := mp_offset p + 1,
                   mp_remaining := count - 1\<rparr>
        in if mp_offset p1 + ResolutionSize (mp_current_resolution p1) > unat (mp_size p1)
           then Inr (no_entry, p1)
           else Inr ((True, mp_current_register p1, mp_current_resolution p1),
                     p1\<lparr>mp_current_register := mp_current_register p1 + 1\<rparr>))"

text \<open>
  The loop \<^verbatim>\<open>while (offset_ < size_) { ... }\<close> of \<open>next\<close> together with the final
  \<^verbatim>\<open>return std::make_tuple(false, 0, Resolution::kInt8)\<close> that every \<^verbatim>\<open>break\<close> reaches;
  \<^verbatim>\<open>continue\<close> is the recursive call.
\<close>

function scan :: "MultiplexParser \<Rightarrow> error + entry \<times> MultiplexParser" where
  "scan p =
     (if mp_offset p < unat (mp_size p) then
        (if length (mp_data p) \<le> mp_offset p then Inl OutOfBounds
         else
           let cmd = mp_data p ! mp_offset p;
               p1 = p\<lparr>mp_offset := mp_offset p + 1\<rparr>
           in if cmd = 0x50 then scan p1
              else if unat (mp_size p1) \<le> mp_offset p1 then Inr (no_entry, p1)
              else if 0x20 \<le> cmd \<and> cmd < 0x30 then
                (let p2 = p1\<lparr>mp_current_resolution :=
                               resolution_of_id (unat (drop_bit 2 cmd AND 0x03))\<rparr>;
                     count = uint (cmd AND 0x03)
                 in if count = 0 then
                      (if length (mp_data p2) \<le> mp_offset p2 then Inl OutOfBounds
                       else
                         let count' = uint (mp_data p2 ! mp_offset p2);
                             p3 = p2\<lparr>mp_offset := mp_offset p2 + 1\<rparr>
                         in if unat (mp_size p3) \<le> mp_offset p3 then Inr (no_entry, p3)
                            else if count' = 0 then scan p3
                            else begin_run p3 count')
                    else begin_run p2 count)
              else Inr (no_entry, p1\<lparr>mp_offset := unat (mp_size p1)\<rparr>))
      else Inr (no_entry, p))"
  by pat_completeness auto
termination
  by (relation "measure (\<lambda>p. unat (mp_size p) - mp_offset p)") auto

declare scan.simps [simp del]

text \<open>\<^verbatim>\<open>std::tuple<bool, uint32_t, Resolution> next()\<close>.\<close>

definition MultiplexParser_next :: "MultiplexParser \<Rightarrow> error + entry \<times> MultiplexParser" where
  "MultiplexParser_next p =
     (if unat (mp_size p) \<le> mp_offset p then Inr (no_entry, p)
      else if mp_remaining p \<noteq> 0 then
        (let p1 = p\<lparr>mp_remaining := mp_remaining p - 1\<rparr>;
             this_register = mp_current_register p1;
             p2 = p1\<lparr>mp_current_register := this_register + 1\<rparr>
         in if mp_offset p2 + ResolutionSize (mp_current_resolution p2) > unat (mp_size p2)
            then Inr (no_entry, p2)
            else Inr ((True, this_register, mp_current_resolution p2), p2))
      else scan p)"

text \<open>
  \<^verbatim>\<open>template <typename T> T Read()\<close> as far as the bytes go: the \<open>n = sizeof(T)\<close> bytes at
  the cursor.
\<close>

definition Read :: "nat \<Rightarrow> MultiplexParser \<Rightarrow> byte list outcome \<times> MultiplexParser" where
  "Read n p =
     (if mp_offset p + n > unat (mp_size p) then (Threw Overrun, p)
      else if length (mp_data p) < mp_offset p + n then (Threw OutOfBounds, p)
      else (Returned (take n (drop (mp_offset p) (mp_data p))),
            p\<lparr>mp_offset := mp_offset p + n\<rparr>))"

text \<open>\<^verbatim>\<open>void Ignore(Resolution res) { offset_ += ResolutionSize(res); }\<close>\<close>

definition Ignore :: "Resolution \<Rightarrow> MultiplexParser \<Rightarrow> MultiplexParser" where
  "Ignore res p = p\<lparr>mp_offset := mp_offset p + ResolutionSize res\<rparr>"

text \<open>
  The parser's constructor is given a pointer and a length; the reads of \<open>next\<close> stay
  inside the array when the length does not exceed it.
\<close>

definition wf_parser :: "MultiplexParser \<Rightarrow> bool" where
  "wf_parser p \<longleftrightarrow> unat (mp_size p) \<le> length (mp_data p)"

text \<open>
  The two \<^verbatim>\<open>continue\<close> statements of the loop in \<open>next\<close>, as a step relation between the
  parser states at the loop head: a no-op byte is skipped, and so is a reply header in
  long form whose count byte is zero (when a further byte follows it).
\<close>

inductive scanning :: "MultiplexParser \<Rightarrow> MultiplexParser \<Rightarrow> bool" where
  here: "scanning p p"
| nop: "mp_offset p < unat (mp_size p) \<Longrightarrow> mp_offset p < length (mp_data p)
        \<Longrightarrow> mp_data p ! mp_offset p = 0x50
        \<Longrightarrow> scanning (p\<lparr>mp_offset := mp_offset p + 1\<rparr>) q \<Longrightarrow> scanning p q"
| empty: "mp_offset p + 2 < unat (mp_size p) \<Longrightarrow> mp_offset p + 1 < length (mp_data p)
        \<Longrightarrow> cmd = mp_data p ! mp_offset p \<Longrightarrow> 0x20 \<le> cmd \<Longrightarrow> cmd < 0x30
        \<Longrightarrow> cmd AND 0x03 = 0 \<Longrightarrow> mp_data p ! (mp_offset p + 1) = 0
        \<Longrightarrow> scanning (p\<lparr>mp_current_resolution := resolution_of_id (unat (drop_bit 2 cmd AND 0x03)),
                       mp_offset := mp_offset p + 2\<rparr>) q
        \<Longrightarrow> scanning p q"

text \<open>The result of the \<open>n\<close>-th call to \<open>next\<close> after the present one (\<open>0\<close>: the present one).\<close>

fun nth_next :: "nat \<Rightarrow> MultiplexParser \<Rightarrow> error + entry \<times> MultiplexParser" where
  "nth_next 0 p = MultiplexParser_next p"
| "nth_next (Suc n) p =
     (case MultiplexParser_next p of Inl e \<Rightarrow> Inl e | Inr (_, p') \<Rightarrow> nth_next n p')"

subsection \<open>The loop of \<^verbatim>\<open>ParseQueryResult\<close>\<close>

text \<open>
  \<^verbatim>\<open>while (true) { auto entry = parser.next(); if (!std::get<0>(entry)) { break; } ... }\<close>
  Every branch of the \<^verbatim>\<open>switch\<close> in the body moves the cursor by \<open>ResolutionSize(res)\<close>: the
  \<open>Read...\<close> members through \<open>Read\<close>, the default branch through \<open>Ignore\<close>. The function
  gives the entries the loop goes through, each with the position of its value: register,
  resolution, and the cursor at the time \<open>next\<close> returned. The loop ends at the first
  \<open>(false, ...)\<close>; \<open>next\<close> is not called again.
\<close>

function ParseQueryResult_entries ::
  "MultiplexParser \<Rightarrow> error + (32 word \<times> Resolution \<times> nat) list" where
  "ParseQueryResult_entries p =
     (case MultiplexParser_next p of
        Inl e \<Rightarrow> Inl e
      | Inr ((b, r, res), p') \<Rightarrow>
          if \<not> b then Inr []
          else (case ParseQueryResult_entries (Ignore res p') of
                  Inl e \<Rightarrow> Inl e
                | Inr es \<Rightarrow> Inr ((r, res, mp_offset p') # es)))"
  by pat_completeness auto
termination
proof (relation "measure (\<lambda>p. unat (mp_size p) - mp_offset p)")
  show "wf (measure (\<lambda>p. unat (mp_size p) - mp_offset p))" by simp
next
  fix p x x1 p' b y r res
  assume "MultiplexParser_next p = Inr x" "(x1, p') = x" "(b, y) = x1" "(r, res) = y" "\<not> \<not> b"
  then have n: "MultiplexParser_next p = Inr ((True, r, res), p')" by auto
  have mono: "mp_size q' = mp_size q \<and> mp_offset q \<le> mp_offset q'"
    if "scan q = Inr (e, q')" for q e q'
    using that
  proof (induction q rule: scan.induct)
    case (1 q)
    show ?case
      using "1.prems" "1.IH"
      apply (subst (asm) scan.simps)
      apply (simp add: Let_def begin_run_def split: if_splits)
      apply auto
      subgoal premises prems using prems(1) [OF refl refl refl refl refl refl] by simp
      done
  qed
  have pos: "0 < ResolutionSize res" by (cases res) simp_all
  show "(Ignore res p', p) \<in> measure (\<lambda>p. unat (mp_size p) - mp_offset p)"
  proof (cases "mp_remaining p = 0")
    case True
    with n have lt: "mp_offset p < unat (mp_size p)" and s: "scan p = Inr ((True, r, res), p')"
      by (auto simp: MultiplexParser_next_def no_entry_def split: if_splits)
    from mono [OF s] lt pos show ?thesis
      by (auto simp: Ignore_def)
  next
    case False
    with n pos show ?thesis
      by (auto simp: MultiplexParser_next_def no_entry_def Let_def Ignore_def split: if_splits)
  qed
qed

declare ParseQueryResult_entries.simps [simp del]

subsection \<open>The parser as the specification describes it\<close>

text \<open>
  The specification gives the parser as a state machine over the bytes still to be read,
  with the states \<open>ScanningForHeader\<close> and \<open>InRun(remaining_count, resolution,
  next_register_id)\<close>; \<open>Exhausted\<close> is the end of the sequence.
\<close>

datatype spec_state = ScanningForHeader | InRun nat Resolution "32 word"

text \<open>
  \<open>size_of(resolution)\<close>, the number of bytes of a value on the wire; \<open>Ignore\<close> is never
  written to the wire.
\<close>

fun size_of :: "Resolution \<Rightarrow> nat" where
  "size_of kInt8 = 1"
| "size_of kInt16 = 2"
| "size_of kInt32 = 4"
| "size_of kFloat = 4"
| "size_of kIgnore = 0"

text \<open>The 2-bit code of the resolution: \<open>00 = int8, 01 = int16, 10 = int32, 11 = float\<close>.\<close>

definition spec_resolution :: "nat \<Rightarrow> Resolution" where
  "spec_resolution code =
     (if code = 0 then kInt8 else if code = 1 then kInt16 else if code = 2 then kInt32 else kFloat)"

text \<open>
  The sequence of elements the specification assigns to the bytes \<open>bs\<close>, of which the first
  is at position \<open>pos\<close> of the buffer; an element is the register id, the resolution and
  the position of the value.

  From \<open>InRun\<close>: while remaining > 0, yield \<open>(next_register_id, resolution)\<close>, increment the
  register id, decrement remaining; the caller pops exactly \<open>size_of(resolution)\<close> bytes
  before requesting the next element. From \<open>ScanningForHeader\<close>: skip no-op filler bytes;
  on a reply opcode extract the 2-bit resolution code and the 2-bit inline count; if the
  inline count is zero, read one more byte as an explicit count; if that count is also
  zero, continue scanning; otherwise read one byte as the starting register id and go to
  \<open>InRun\<close>. Any other opcode ends the sequence. Running out of bytes where more are
  required (count byte, start-register byte, or the value itself) ends the sequence
  without a final element. The no-op filler is \<open>0x50\<close> and the reply opcodes are \<open>0x20\<close> to
  \<open>0x2F\<close>, the constants of \<^verbatim>\<open>enum Multiplex\<close>.
\<close>

function spec_elements ::
  "spec_state \<Rightarrow> nat \<Rightarrow> byte list \<Rightarrow> (32 word \<times> Resolution \<times> nat) list" where
  "spec_elements (InRun remaining res reg) pos bs =
     (if remaining = 0 then spec_elements ScanningForHeader pos bs
      else if length bs < size_of res then []
      else (reg, res, pos)
             # spec_elements (InRun (remaining - 1) res (reg + 1)) (pos + size_of res)
                 (drop (size_of res) bs))"
| "spec_elements ScanningForHeader pos [] = []"
| "spec_elements ScanningForHeader pos (cmd # bs) =
     (if cmd = 0x50 then spec_elements ScanningForHeader (pos + 1) bs
      else if 0x20 \<le> cmd \<and> cmd < 0x30 then
        (let res = spec_resolution (unat (drop_bit 2 cmd AND 0x03));
             inline_count = unat (cmd AND 0x03)
         in if inline_count \<noteq> 0 then
              (case bs of
                 [] \<Rightarrow> []
               | reg # bs' \<Rightarrow> spec_elements (InRun inline_count res (ucast reg)) (pos + 2) bs')
            else
              (case bs of
                 [] \<Rightarrow> []
               | explicit_count # bs' \<Rightarrow>
                   if explicit_count = 0 then spec_elements ScanningForHeader (pos + 2) bs'
                   else
                     (case bs' of
                        [] \<Rightarrow> []
                      | reg # bs'' \<Rightarrow>
                          spec_elements (InRun (unat explicit_count) res (ucast reg)) (pos + 3) bs'')))
      else [])"
  by pat_completeness auto
termination
  by (relation "measures [\<lambda>(st, pos, bs). length bs,
                          \<lambda>(st, pos, bs). (case st of ScanningForHeader \<Rightarrow> 0 | InRun n _ _ \<Rightarrow> n + 1)]")
     auto

declare spec_elements.simps [simp del]

text \<open>The bytes of the buffer from the cursor on.\<close>

definition unread :: "MultiplexParser \<Rightarrow> byte list" where
  "unread p = drop (mp_offset p) (take (unat (mp_size p)) (mp_data p))"

subsection \<open>Floating-point values\<close>

text \<open>
  \<open>double\<close> and \<open>float\<close> are the IEEE 754 binary64 and binary32 formats. A \<open>double\<close> is
  modelled by the value it denotes: a real number (\<open>Fin\<close>, with \<open>Fin 0\<close> for \<open>+0\<close>), negative
  zero, an infinity, or not-a-number. Every finite double is such a value; the operations
  below return values of the format, so that a term built from literals and operations
  denotes the double the program computes. An operation computes the exact result and
  rounds it to the nearest value of the format, ties to even (the default rounding mode).

  \<open>pow2 k\<close> is \<open>2\<close> to the integer power \<open>k\<close>; \<open>ilog2 q\<close> is the exponent \<open>e\<close> with
  \<open>2 ^ e \<le> q < 2 ^ (e + 1)\<close> for positive \<open>q\<close>.
\<close>

definition pow2 :: "int \<Rightarrow> real" where
  "pow2 k = (if 0 \<le> k then 2 ^ nat k else 1 / 2 ^ nat (- k))"

definition ilog2 :: "real \<Rightarrow> int" where
  "ilog2 q = (if 1 \<le> q then bitlen \<lfloor>q\<rfloor> - 1 else - bitlen (\<lceil>1 / q\<rceil> - 1))"

definition round_half_even :: "real \<Rightarrow> int" where
  "round_half_even x =
     (let f = \<lfloor>x\<rfloor>; r = x - of_int f
      in if r < 1 / 2 then f else if 1 / 2 < r then f + 1 else if even f then f else f + 1)"

text \<open>
  Rounding a positive magnitude \<open>q\<close> in a format with \<open>mbits\<close> fraction bits and least normal
  exponent \<open>emin\<close>: the result is \<open>n * 2 ^ k\<close>, where \<open>2 ^ k\<close> is the spacing of the format
  at \<open>q\<close> (that of the subnormal numbers below \<open>2 ^ emin\<close>).
\<close>

definition round_mag :: "nat \<Rightarrow> int \<Rightarrow> real \<Rightarrow> int \<times> int" where
  "round_mag mbits emin q =
     (let e = max (ilog2 q) emin; k = e - int mbits
      in (round_half_even (q / pow2 k), k))"

datatype double = Fin real | NegZero | PInf | NInf | NaN

definition signed_zero :: "bool \<Rightarrow> double" where
  "signed_zero neg = (if neg then NegZero else Fin 0)"

definition signed_inf :: "bool \<Rightarrow> double" where
  "signed_inf neg = (if neg then NInf else PInf)"

text \<open>Rounding to binary64 the number of magnitude \<open>q > 0\<close> and sign \<open>neg\<close>.\<close>

definition round64 :: "bool \<Rightarrow> real \<Rightarrow> double" where
  "round64 neg q =
     (let (n, k) = round_mag 52 (- 1022) q; m = of_int n * pow2 k
      in if m = 0 then signed_zero neg
         else if pow2 1024 \<le> m then signed_inf neg
         else Fin (if neg then - m else m))"

text \<open>A decimal literal of the source, such as \<^verbatim>\<open>0.01\<close>: the double nearest to it.\<close>

definition dbl :: "real \<Rightarrow> double" where
  "dbl q = (if q = 0 then Fin 0 else round64 (q < 0) \<bar>q\<bar>)"

fun isfinite :: "double \<Rightarrow> bool" where
  "isfinite (Fin q) = True"
| "isfinite NegZero = True"
| "isfinite d = False"

fun fval :: "double \<Rightarrow> real" where
  "fval (Fin q) = q"
| "fval d = 0"

fun sign_bit :: "double \<Rightarrow> bool" where
  "sign_bit (Fin q) = (q < 0)"
| "sign_bit NegZero = True"
| "sign_bit NInf = True"
| "sign_bit d = False"

text \<open>The operators \<^verbatim>\<open>/\<close>, \<^verbatim>\<open>*\<close>, unary \<^verbatim>\<open>-\<close> and \<^verbatim>\<open><\<close> on \<open>double\<close>.\<close>

definition fdiv :: "double \<Rightarrow> double \<Rightarrow> double" where
  "fdiv a b =
     (if a = NaN \<or> b = NaN then NaN
      else
        let neg = (sign_bit a \<noteq> sign_bit b)
        in if \<not> isfinite a then (if \<not> isfinite b then NaN else signed_inf neg)
           else if \<not> isfinite b then signed_zero neg
           else if fval b = 0 then (if fval a = 0 then NaN else signed_inf neg)
           else if fval a = 0 then signed_zero neg
           else round64 neg (\<bar>fval a\<bar> / \<bar>fval b\<bar>))"

definition fmul :: "double \<Rightarrow> double \<Rightarrow> double" where
  "fmul a b =
     (if a = NaN \<or> b = NaN then NaN
      else
        let neg = (sign_bit a \<noteq> sign_bit b)
        in if \<not> isfinite a then (if isfinite b \<and> fval b = 0 then NaN else signed_inf neg)
           else if \<not> isfinite b then (if fval a = 0 then NaN else signed_inf neg)
           else if fval a = 0 \<or> fval b = 0 then signed_zero neg
           else round64 neg (\<bar>fval a\<bar> * \<bar>fval b\<bar>))"

fun fneg :: "double \<Rightarrow> double" where
  "fneg (Fin q) = (if q = 0 then NegZero else Fin (- q))"
| "fneg NegZero = Fin 0"
| "fneg PInf = NInf"
| "fneg NInf = PInf"
| "fneg NaN = NaN"

fun fless :: "double \<Rightarrow> double \<Rightarrow> bool" where
  "fless NaN b = False"
| "fless a NaN = False"
| "fless PInf b = False"
| "fless a NInf = False"
| "fless NInf b = True"
| "fless a PInf = True"
| "fless a b = (fval a < fval b)"

text \<open>
  \<^verbatim>\<open>std::numeric_limits<T>::max()\<close> and \<^verbatim>\<open>min()\<close> of the signed integer type \<open>T\<close> of \<open>w\<close>
  bits, and \<^verbatim>\<open>static_cast<T>(d)\<close> of a double: the value truncated towards zero, undefined
  when the truncation is not a value of \<open>T\<close> (not-a-number and the infinities included).
\<close>

definition T_max :: "nat \<Rightarrow> int" where
  "T_max w = 2 ^ (w - 1) - 1"

definition T_min :: "nat \<Rightarrow> int" where
  "T_min w = - (2 ^ (w - 1))"

definition trunc :: "real \<Rightarrow> int" where
  "trunc q = (if 0 \<le> q then \<lfloor>q\<rfloor> else \<lceil>q\<rceil>)"

definition double_to_int :: "nat \<Rightarrow> double \<Rightarrow> error + int" where
  "double_to_int w d =
     (if isfinite d \<and> T_min w \<le> trunc (fval d) \<and> trunc (fval d) \<le> T_max w
      then Inr (trunc (fval d)) else Inl UndefinedConversion)"

text \<open>
  \<^verbatim>\<open>template <typename T> T Saturate(double value, double scale)\<close> for \<open>T\<close> of \<open>w\<close> bits.
  \<open>double_max\<close> is \<open>max\<close> converted to \<open>double\<close>, exactly, for the widths in use.
\<close>

definition Saturate :: "nat \<Rightarrow> double \<Rightarrow> double \<Rightarrow> error + int" where
  "Saturate w val scale =
     (if \<not> isfinite val then Inr (T_min w)
      else
        let scaled = fdiv val scale;
            max = T_max w;
            double_max = Fin (of_int max)
        in if fless scaled (fneg double_max) then Inr (- max)
           else if fless double_max scaled then Inr max
           else double_to_int w scaled)"

text \<open>
  A \<open>float\<close> is modelled by its 32 bits. \<^verbatim>\<open>static_cast<float>(d)\<close> rounds to binary32:
  with \<open>n * 2 ^ k\<close> the rounded magnitude, exponent field and fraction together are
  \<open>(k + 149) * 2 ^ 23 + n\<close>, and the infinity \<open>0x7F800000\<close> from there on. The conversion
  of a \<open>float\<close> to \<open>double\<close> is exact.
\<close>

definition double_to_float :: "double \<Rightarrow> 32 word" where
  "double_to_float d =
     (case d of
        NaN \<Rightarrow> 0x7FC00000
      | PInf \<Rightarrow> 0x7F800000
      | NInf \<Rightarrow> 0xFF800000
      | NegZero \<Rightarrow> 0x80000000
      | Fin q \<Rightarrow>
          if q = 0 then 0
          else
            let (n, k) = round_mag 23 (- 126) \<bar>q\<bar>;
                mag = min ((k + 149) * 2 ^ 23 + n) 0x7F800000
            in word_of_int (mag + (if q < 0 then 0x80000000 else 0)))"

definition float_to_double :: "32 word \<Rightarrow> double" where
  "float_to_double x =
     (let neg = bit x 31;
          e = unat (drop_bit 23 x AND 0xFF);
          m = unat (x AND 0x7FFFFF);
          s = (if neg then - 1 else 1)
      in if e = 255 then (if m = 0 then signed_inf neg else NaN)
         else if e = 0 then (if m = 0 then signed_zero neg else Fin (s * real m * pow2 (- 149)))
         else Fin (s * real (2 ^ 23 + m) * pow2 (int e - 150)))"

subsection \<open>\<^verbatim>\<open>WriteMapped\<close> and \<^verbatim>\<open>ReadMapped\<close>\<close>

definition WriteMapped ::
  "double \<Rightarrow> double \<Rightarrow> double \<Rightarrow> double \<Rightarrow> Resolution \<Rightarrow> CanFrame \<Rightarrow> unit outcome \<times> CanFrame" where
  "WriteMapped val int8_scale int16_scale int32_scale res f =
     (case res of
        kInt8 \<Rightarrow> (case Saturate 8 val int8_scale of
                    Inl e \<Rightarrow> (Threw e, f) | Inr n \<Rightarrow> Write_int 1 n f)
      | kInt16 \<Rightarrow> (case Saturate 16 val int16_scale of
                     Inl e \<Rightarrow> (Threw e, f) | Inr n \<Rightarrow> Write_int 2 n f)
      | kInt32 \<Rightarrow> (case Saturate 32 val int32_scale of
                     Inl e \<Rightarrow> (Threw e, f) | Inr n \<Rightarrow> Write_int 4 n f)
      | kFloat \<Rightarrow> Write (le_bytes 4 (uint (double_to_float val))) f
      | kIgnore \<Rightarrow> (Threw IgnoredResolution, f))"

text \<open>\<^verbatim>\<open>Read<int8_t>\<close>, \<^verbatim>\<open>Read<int16_t>\<close>, \<^verbatim>\<open>Read<int32_t>\<close>: the signed reading of the bytes.\<close>

definition Read_int :: "nat \<Rightarrow> MultiplexParser \<Rightarrow> int outcome \<times> MultiplexParser" where
  "Read_int n p =
     (case Read n p of
        (Threw e, p') \<Rightarrow> (Threw e, p')
      | (Returned bs, p') \<Rightarrow> (Returned (to_signed n (le_val bs)), p'))"

text \<open>\<^verbatim>\<open>template <typename T> double Nanify(T value)\<close> for \<open>T\<close> of \<open>w\<close> bits.\<close>

definition Nanify :: "nat \<Rightarrow> int \<Rightarrow> double" where
  "Nanify w v = (if v = T_min w then NaN else Fin (of_int v))"

definition ReadMapped ::
  "Resolution \<Rightarrow> double \<Rightarrow> double \<Rightarrow> double \<Rightarrow> MultiplexParser \<Rightarrow> double outcome \<times> MultiplexParser" where
  "ReadMapped res int8_scale int16_scale int32_scale p =
     (case res of
        kInt8 \<Rightarrow> (case Read_int 1 p of
                    (Threw e, p') \<Rightarrow> (Threw e, p')
                  | (Returned v, p') \<Rightarrow> (Returned (fmul (Nanify 8 v) int8_scale), p'))
      | kInt16 \<Rightarrow> (case Read_int 2 p of
                     (Threw e, p') \<Rightarrow> (Threw e, p')
                   | (Returned v, p') \<Rightarrow> (Returned (fmul (Nanify 16 v) int16_scale), p'))
      | kInt32 \<Rightarrow> (case Read_int 4 p of
                     (Threw e, p') \<Rightarrow> (Threw e, p')
                   | (Returned v, p') \<Rightarrow> (Returned (fmul (Nanify 32 v) int32_scale), p'))
      | kFloat \<Rightarrow> (case Read 4 p of
                     (Threw e, p') \<Rightarrow> (Threw e, p')
                   | (Returned bs, p') \<Rightarrow> (Returned (float_to_double (word_of_int (le_val bs))), p'))
      | kIgnore \<Rightarrow> (Threw Unreachable, p))"

text \<open>
  The scale factors of the physical quantities (int8, int16, int32), as the \<open>Write...\<close>
  and \<open>Read...\<close> members pass them; those of \<open>WritePwm\<close> are quotients computed in
  \<open>double\<close>.
\<close>

definition position_scales :: "double \<times> double \<times> double" where
  "position_scales = (dbl (1 / 100), dbl (1 / 10000), dbl (1 / 100000))"

definition velocity_scales :: "double \<times> double \<times> double" where
  "velocity_scales = (dbl (1 / 10), dbl (25 / 100000), dbl (1 / 100000))"

definition torque_scales :: "double \<times> double \<times> double" where
  "torque_scales = (dbl (1 / 2), dbl (1 / 100), dbl (1 / 1000))"

definition pwm_scales :: "double \<times> double \<times> double" where
  "pwm_scales = (fdiv (Fin 1) (Fin 127), fdiv (Fin 1) (Fin 32767), fdiv (Fin 1) (Fin 2147483647))"

definition voltage_scales :: "double \<times> double \<times> double" where
  "voltage_scales = (dbl (1 / 2), dbl (1 / 10), dbl (1 / 1000))"

definition temperature_scales :: "double \<times> double \<times> double" where
  "temperature_scales = (Fin 1, dbl (1 / 10), dbl (1 / 1000))"

definition time_scales :: "double \<times> double \<times> double" where
  "time_scales = (dbl (1 / 100), dbl (1 / 1000), dbl (1 / 1000000))"

definition WriteScaled ::
  "double \<times> double \<times> double \<Rightarrow> double \<Rightarrow> Resolution \<Rightarrow> CanFrame \<Rightarrow> unit outcome \<times> CanFrame" where
  "WriteScaled scales val res f =
     (case scales of (s8, s16, s32) \<Rightarrow> WriteMapped val s8 s16 s32 res f)"

definition ReadScaled ::
  "double \<times> double \<times> double \<Rightarrow> Resolution \<Rightarrow> MultiplexParser \<Rightarrow> double outcome \<times> MultiplexParser" where
  "ReadScaled scales res p =
     (case scales of (s8, s16, s32) \<Rightarrow> ReadMapped res s8 s16 s32 p)"

text \<open>
  \<^verbatim>\<open>WritePosition\<close> and \<^verbatim>\<open>ReadPosition\<close>. \<open>WriteVelocity\<close>, \<open>WriteTorque\<close>, \<open>WritePwm\<close>, \<open>WriteVoltage\<close>
  and the \<open>Read...\<close> members of the other quantities differ in the scales only;
  \<open>WriteTemperature\<close> and \<open>WriteTime\<close> take a \<open>float\<close>, which they pass on as a \<open>double\<close>.
\<close>

definition WritePosition :: "double \<Rightarrow> Resolution \<Rightarrow> CanFrame \<Rightarrow> unit outcome \<times> CanFrame" where
  "WritePosition val res f = WriteScaled position_scales val res f"

definition ReadPosition :: "Resolution \<Rightarrow> MultiplexParser \<Rightarrow> double outcome \<times> MultiplexParser" where
  "ReadPosition res p = ReadScaled position_scales res p"

text \<open>The scale factors of all quantities, and the one \<open>WriteMapped\<close> uses at a resolution.\<close>

definition quantity_scales :: "(double \<times> double \<times> double) list" where
  "quantity_scales =
     [position_scales, velocity_scales, torque_scales, pwm_scales, voltage_scales,
      temperature_scales, time_scales]"

fun scale_at :: "Resolution \<Rightarrow> double \<times> double \<times> double \<Rightarrow> double" where
  "scale_at kInt8 (s8, s16, s32) = s8"
| "scale_at kInt16 (s8, s16, s32) = s16"
| "scale_at kInt32 (s8, s16, s32) = s32"
| "scale_at res (s8, s16, s32) = Fin 1"

text \<open>
  The scale factors for which the round trip is bounded below: finite, between \<open>2 ^ - 64\<close>
  and \<open>2 ^ 64\<close>. All scale factors of the program are of this kind.
\<close>

definition scale_ok :: "double \<Rightarrow> bool" where
  "scale_ok s \<longleftrightarrow> isfinite s \<and> pow2 (- 64) \<le> fval s \<and> fval s \<le> pow2 64"

subsection \<open>\<^verbatim>\<open>MoteusWrapper\<close> (\<^verbatim>\<open>wrapper.h\<close>)\<close>

text \<open>
  The constructor's loop
  \<^verbatim>\<open>for (int i = 0; i < dev_name.size(); i++) { MoteusAPI api(dev_name[i], moteus_id[i]); drivers.push_back(api); }\<close>
  The class \<open>MoteusAPI\<close> is declared in a header outside the sources at hand, so its
  constructor is the parameter \<open>api\<close>. \<open>moteus_id[i]\<close> past the end of the vector has no
  defined behaviour.
\<close>

function make_drivers ::
  "(string \<Rightarrow> int \<Rightarrow> 'a) \<Rightarrow> string list \<Rightarrow> int list \<Rightarrow> nat \<Rightarrow> 'a list \<Rightarrow> error + 'a list" where
  "make_drivers api dev_name moteus_id i drivers =
     (if i < length dev_name then
        (if i < length moteus_id
         then make_drivers api dev_name moteus_id (Suc i)
                (drivers @ [api (dev_name ! i) (moteus_id ! i)])
         else Inl OutOfBounds)
      else Inr drivers)"
  by pat_completeness auto
termination
  by (relation "measure (\<lambda>(api, dev_name, moteus_id, i, drivers). length dev_name - i)") auto

declare make_drivers.simps [simp del]

text \<open>
  The constructor, with assertions enabled:
  \<^verbatim>\<open>assert((dev_name.size() != moteus_id.size()) && "Length of dev_name and moteus_id vector does not match");\<close>
\<close>

definition MoteusWrapper ::
  "(string \<Rightarrow> int \<Rightarrow> 'a) \<Rightarrow> string list \<Rightarrow> int list \<Rightarrow> error + 'a list" where
  "MoteusWrapper api dev_name moteus_id =
     (if length dev_name \<noteq> length moteus_id then make_drivers api dev_name moteus_id 0 []
      else Inl AssertionFailed)"

section \<open>Frame writer\<close>

lemma length_le_bytes: "length (le_bytes n v) = n"
  by (induction n arbitrary: v) auto

lemma le_bytes_nth: "k < n \<Longrightarrow> le_bytes n v ! k = word_of_int (v div 256 ^ k)"
proof (induction n arbitrary: v k)
  case 0
  then show ?case by simp
next
  case (Suc n)
  show ?case
  proof (cases k)
    case 0
    then show ?thesis by simp
  next
    case (Suc j)
    with Suc.prems have "j < n" by simp
    from Suc.IH [OF this, of "v div 256"] Suc show ?thesis
      by (simp add: zdiv_zmult2_eq)
  qed
qed

lemma length_memcpy: "length (memcpy xs pos bs) = length xs"
  by (induction bs arbitrary: xs pos) auto

lemma memcpy_nth_below: "i < pos \<Longrightarrow> memcpy xs pos bs ! i = xs ! i"
  by (induction bs arbitrary: xs pos) auto

lemma memcpy_nth_in:
  "pos + length bs \<le> length xs \<Longrightarrow> k < length bs \<Longrightarrow> memcpy xs pos bs ! (pos + k) = bs ! k"
proof (induction bs arbitrary: xs pos k)
  case Nil
  then show ?case by simp
next
  case (Cons b bs)
  show ?case
  proof (cases k)
    case 0
    with Cons.prems show ?thesis by (simp add: memcpy_nth_below)
  next
    case (Suc j)
    with Cons.prems Cons.IH [of "Suc pos" "xs[pos := b]" j] show ?thesis by simp
  qed
qed

lemma memcpy_nth_above:
  "pos + length bs \<le> i \<Longrightarrow> memcpy xs pos bs ! i = xs ! i"
  by (induction bs arbitrary: xs pos) auto

lemma take_memcpy:
  assumes "pos + length bs \<le> length xs"
  shows "take (pos + length bs) (memcpy xs pos bs) = take pos xs @ bs"
proof (rule nth_equalityI)
  show "length (take (pos + length bs) (memcpy xs pos bs)) = length (take pos xs @ bs)"
    using assms by (simp add: length_memcpy)
next
  fix i
  assume "i < length (take (pos + length bs) (memcpy xs pos bs))"
  with assms have i: "i < pos + length bs" by (simp add: length_memcpy)
  show "take (pos + length bs) (memcpy xs pos bs) ! i = (take pos xs @ bs) ! i"
  proof (cases "i < pos")
    case True
    with i assms show ?thesis by (simp add: memcpy_nth_below nth_append)
  next
    case False
    then obtain k where k: "i = pos + k" "k < length bs"
      using i by (metis add_diff_inverse_nat nat_add_left_cancel_less)
    with i assms show ?thesis by (simp add: memcpy_nth_in nth_append)
  qed
qed

lemma drop_memcpy:
  "drop (pos + length bs) (memcpy xs pos bs) = drop (pos + length bs) xs"
  by (rule nth_equalityI) (simp_all add: length_memcpy memcpy_nth_above)

lemma unat_fsize_add:
  fixes s :: "8 word"
  assumes "n + unat s \<le> 64"
  shows "unat (s + of_nat n) = unat s + n"
proof -
  have "unat (s + of_nat n) = (unat s + n) mod 256"
    by (simp add: unat_word_ariths unat_of_nat mod_add_right_eq)
  with assms show ?thesis by simp
qed

lemma Write_overflow:
  "length bs + unat (fsize f) > 64 \<Longrightarrow> Write bs f = (Threw Overflow, f)"
  by (simp add: Write_def)

lemma Write_ok:
  assumes "length bs + unat (fsize f) \<le> 64" and "length (fdata f) = 64"
  shows "\<exists>f'. Write bs f = (Returned (), f')
           \<and> unat (fsize f') = unat (fsize f) + length bs
           \<and> length (fdata f') = 64
           \<and> frame_bytes f' = frame_bytes f @ bs
           \<and> drop (unat (fsize f')) (fdata f') = drop (unat (fsize f')) (fdata f)"
proof -
  let ?f' = "f\<lparr>fdata := memcpy (fdata f) (unat (fsize f)) bs,
               fsize := fsize f + of_nat (length bs)\<rparr>"
  have w: "Write bs f = (Returned (), ?f')"
    using assms by (simp add: Write_def)
  have sz: "unat (fsize ?f') = unat (fsize f) + length bs"
    using assms unat_fsize_add [of "length bs" "fsize f"] by simp
  have fb: "frame_bytes ?f' = frame_bytes f @ bs"
    unfolding frame_bytes_def sz using assms by (simp add: take_memcpy)
  have dr: "drop (unat (fsize ?f')) (fdata ?f') = drop (unat (fsize ?f')) (fdata f)"
    unfolding sz by (simp add: drop_memcpy)
  show ?thesis
    using w sz fb dr assms by (simp add: length_memcpy)
qed

text \<open>
  C9. Appending a \<open>w\<close>-byte typed value (object representation \<open>bs\<close>, \<open>w = length bs\<close>) to
  a frame of length \<open>L\<close>: when \<open>L + w > 64\<close> the write throws the overflow error and leaves
  the frame (array and length) as it was; otherwise the length becomes \<open>L + w\<close>, the \<open>w\<close>
  bytes follow the old contents, and the rest of the array is untouched. The bytes of an
  integer value are in little-endian order: byte \<open>k\<close> is \<open>v div 256 ^ k\<close> reduced to a
  byte.
\<close>

theorem Write_capacity_checked_first:
  assumes "length (fdata f) = 64"
  shows "(unat (fsize f) + length bs > 64 \<longrightarrow> Write bs f = (Threw Overflow, f))
       \<and> (unat (fsize f) + length bs \<le> 64 \<longrightarrow>
            (\<exists>f'. Write bs f = (Returned (), f')
               \<and> unat (fsize f') = unat (fsize f) + length bs
               \<and> frame_bytes f' = frame_bytes f @ bs
               \<and> drop (unat (fsize f')) (fdata f') = drop (unat (fsize f')) (fdata f)))
       \<and> Write_int w v f = Write (le_bytes w v) f
       \<and> length (le_bytes w v) = w
       \<and> (\<forall>k<w. le_bytes w v ! k = word_of_int (v div 256 ^ k))"
proof (intro conjI impI allI)
  assume "unat (fsize f) + length bs > 64"
  then show "Write bs f = (Threw Overflow, f)"
    by (simp add: Write_overflow)
next
  assume "unat (fsize f) + length bs \<le> 64"
  then have "length bs + unat (fsize f) \<le> 64" by simp
  from Write_ok [OF this assms]
  show "\<exists>f'. Write bs f = (Returned (), f')
          \<and> unat (fsize f') = unat (fsize f) + length bs
          \<and> frame_bytes f' = frame_bytes f @ bs
          \<and> drop (unat (fsize f')) (fdata f') = drop (unat (fsize f')) (fdata f)"
    by blast
next
  show "Write_int w v f = Write (le_bytes w v) f"
    by (simp add: Write_int_def)
next
  show "length (le_bytes w v) = w"
    by (rule length_le_bytes)
next
  fix k
  assume "k < w"
  then show "le_bytes w v ! k = word_of_int (v div 256 ^ k)"
    by (rule le_bytes_nth)
qed

theorem Write_capacity_checked_first_witness:
  "length (fdata empty_frame) = 64
   \<and> (\<exists>f'. Write_int 2 4660 empty_frame = (Returned (), f')
          \<and> unat (fsize f') = 2 \<and> frame_bytes f' = [0x34, 0x12])
   \<and> Write [1, 2] (empty_frame\<lparr>fsize := 63\<rparr>) = (Threw Overflow, empty_frame\<lparr>fsize := 63\<rparr>)"
proof -
  have len: "length (fdata empty_frame) = 64"
    by (simp add: empty_frame_def)
  have len': "length (fdata (empty_frame\<lparr>fsize := 63\<rparr>)) = 64"
    by (simp add: empty_frame_def)
  have b: "le_bytes 2 4660 = [0x34, 0x12]"
    by code_simp
  have e: "frame_bytes empty_frame = []" "unat (fsize empty_frame) = 0"
    by (simp_all add: frame_bytes_def empty_frame_def)
  from Write_capacity_checked_first [OF len, of "le_bytes 2 4660" 2 4660]
  have "\<exists>f'. Write_int 2 4660 empty_frame = (Returned (), f')
          \<and> unat (fsize f') = 2 \<and> frame_bytes f' = [0x34, 0x12]"
    unfolding b e by (auto simp: numeral_2_eq_2)
  moreover from Write_capacity_checked_first [OF len', of "[1, 2]" 0 0]
  have "Write [1, 2] (empty_frame\<lparr>fsize := 63\<rparr>) = (Threw Overflow, empty_frame\<lparr>fsize := 63\<rparr>)"
    by simp
  ultimately show ?thesis using len by simp
qed

section \<open>Write combiner\<close>

lemma count_run_takeWhile:
  "count_run rs r i count = count + length (takeWhile (\<lambda>x. x = r) (drop i rs))"
proof (induction rs r i count rule: count_run.induct)
  case (1 rs r i count)
  show ?case
  proof (cases "i < length rs")
    case True
    then have d: "drop i rs = rs ! i # drop (Suc i) rs"
      by (simp add: Cons_nth_drop_Suc)
    show ?thesis
    proof (cases "rs ! i = r")
      case True
      with \<open>i < length rs\<close> 1 show ?thesis
        by (subst count_run.simps) (simp add: d)
    next
      case False
      then show ?thesis
        by (subst count_run.simps) (simp add: d)
    qed
  next
    case False
    then show ?thesis by (subst count_run.simps) simp
  qed
qed

lemma MaybeWrite_combiner:
  "wc_offset (fst (snd (MaybeWrite c f))) = Suc (wc_offset c)"
  "wc_resolutions (fst (snd (MaybeWrite c f))) = wc_resolutions c"
  "wc_base_command (fst (snd (MaybeWrite c f))) = wc_base_command c"
  "wc_start_register (fst (snd (MaybeWrite c f))) = wc_start_register c"
  "wc_current_resolution (fst (snd (MaybeWrite c f))) =
     (if wc_offset c < length (wc_resolutions c) then wc_resolutions c ! wc_offset c
      else wc_current_resolution c)"
  by (simp_all add: MaybeWrite_def Let_def split: sum.split prod.split outcome.split)

lemma combiner_after_snoc:
  "combiner_after c (fs @ [f]) = fst (snd (MaybeWrite (combiner_after c fs) f))"
  by (induction fs arbitrary: c) auto

lemma combiner_after_fields:
  "wc_offset (combiner_after c fs) = wc_offset c + length fs
   \<and> wc_resolutions (combiner_after c fs) = wc_resolutions c
   \<and> wc_base_command (combiner_after c fs) = wc_base_command c
   \<and> wc_start_register (combiner_after c fs) = wc_start_register c"
  by (induction fs arbitrary: c) (simp_all add: MaybeWrite_combiner)

lemma combiner_after_current:
  assumes "wc_offset c = 0" "length fs \<le> length (wc_resolutions c)"
  shows "wc_current_resolution (combiner_after c fs) =
         (if fs = [] then wc_current_resolution c else wc_resolutions c ! (length fs - 1))"
  using assms(2)
proof (induction fs rule: rev_induct)
  case Nil
  then show ?case by simp
next
  case (snoc f fs)
  then show ?case
    using assms(1) by (simp add: combiner_after_snoc MaybeWrite_combiner combiner_after_fields)
qed

lemma and_disjoint:
  fixes b x m :: "8 word"
  assumes "b AND m = 0" "x AND m = x"
  shows "b AND x = 0"
proof -
  have "b AND x = (b AND m) AND x"
    using assms(2) by (metis and.assoc and.commute)
  then show ?thesis using assms(1) by simp
qed

lemma opcode_fields:
  fixes base x :: "8 word"
  assumes b: "base AND 0x0F = 0" and x: "x AND 0x0F = x"
  shows "base + x = base OR x"
    and "(base + x) AND 3 = x AND 3"
    and "drop_bit 2 (base + x) AND 3 = drop_bit 2 x AND 3"
proof -
  have d: "base AND x = 0"
    using b x by (rule and_disjoint)
  show s: "base + x = base OR x"
    using d by (rule disjunctive_add_eq_or)
  have "(3 :: 8 word) AND 0x0F = 3" by simp
  then have b3: "base AND 3 = 0"
    using b and_disjoint by blast
  show "(base + x) AND 3 = x AND 3"
    unfolding s by (simp add: bit.conj_disj_distrib2 b3)
  have "drop_bit 2 base AND 3 = drop_bit 2 base AND drop_bit 2 (0x0F :: 8 word)"
    by simp
  also have "\<dots> = drop_bit 2 (base AND 0x0F)"
    by (simp only: drop_bit_and)
  finally have d3: "drop_bit 2 base AND 3 = 0"
    using b by simp
  show "drop_bit 2 (base + x) AND 3 = drop_bit 2 x AND 3"
    unfolding s by (simp add: drop_bit_or bit.conj_disj_distrib2 d3)
qed

lemma header_codes:
  fixes base :: "8 word"
  assumes "base AND 0x0F = 0" "k < 4" "n \<le> 3"
  shows "(base + push_bit 2 (of_nat k) + of_nat n) AND 3 = of_nat n"
    and "drop_bit 2 (base + push_bit 2 (of_nat k) + of_nat n) AND 3 = of_nat k"
    and "base + push_bit 2 (of_nat k) = base OR push_bit 2 (of_nat k)"
proof -
  have k: "k = 0 \<or> k = 1 \<or> k = 2 \<or> k = 3" using assms(2) by arith
  have n: "n = 0 \<or> n = 1 \<or> n = 2 \<or> n = 3" using assms(3) by arith
  let ?x = "push_bit 2 (of_nat k) + of_nat n :: 8 word"
  have x: "?x AND 0x0F = ?x"
    using k n by auto
  have x3: "?x AND 3 = of_nat n" "drop_bit 2 ?x AND 3 = of_nat k"
    using k n by auto
  from opcode_fields(2,3) [OF assms(1) x] x3
  show "(base + push_bit 2 (of_nat k) + of_nat n) AND 3 = of_nat n"
    and "drop_bit 2 (base + push_bit 2 (of_nat k) + of_nat n) AND 3 = of_nat k"
    by (simp_all add: add.assoc)
  have "push_bit 2 (of_nat k) AND 0x0F = (push_bit 2 (of_nat k) :: 8 word)"
    using k by auto
  from opcode_fields(1) [OF assms(1) this]
  show "base + push_bit 2 (of_nat k) = base OR push_bit 2 (of_nat k)" .
qed

lemma le_bytes_1: "le_bytes 1 v = [word_of_int v]"
  by (simp add: One_nat_def)

lemma Write_int_1_ok:
  assumes "length (fdata f) = 64" "unat (fsize f) + 1 \<le> 64"
  shows "\<exists>f'. Write_int 1 v f = (Returned (), f')
           \<and> unat (fsize f') = unat (fsize f) + 1
           \<and> length (fdata f') = 64
           \<and> frame_bytes f' = frame_bytes f @ [word_of_int v]"
proof -
  have "length (le_bytes 1 v) + unat (fsize f) \<le> 64"
    using assms(2) by (simp add: length_le_bytes)
  from Write_ok [OF this assms(1)] show ?thesis
    by (auto simp: Write_int_def le_bytes_1)
qed

lemma write_header_ok:
  assumes "length (fdata f) = 64" "unat (fsize f) + length (spec_header wc n) \<le> 64"
  shows "\<exists>f'. write_header wc n f = (Returned (), f')
           \<and> unat (fsize f') = unat (fsize f) + length (spec_header wc n)
           \<and> length (fdata f') = 64
           \<and> frame_bytes f' = frame_bytes f @ spec_header wc n"
proof (cases "n \<le> 3")
  case True
  with assms(2) have "unat (fsize f) + 1 \<le> 64" by (simp add: spec_header_def)
  from Write_int_1_ok [OF assms(1) this, of "sint wc + int n"] True show ?thesis
    by (auto simp: write_header_def spec_header_def)
next
  case False
  with assms(2) have r: "unat (fsize f) + 1 \<le> 64" "unat (fsize f) + 2 \<le> 64"
    by (simp_all add: spec_header_def)
  from Write_int_1_ok [OF assms(1) r(1), of "sint wc"] obtain f1 where
    f1: "Write_int 1 (sint wc) f = (Returned (), f1)" "unat (fsize f1) = unat (fsize f) + 1"
        "length (fdata f1) = 64" "frame_bytes f1 = frame_bytes f @ [wc]"
    by auto
  have "unat (fsize f1) + 1 \<le> 64" using f1(2) r(2) by simp
  from Write_int_1_ok [OF f1(3) this, of "int n"] obtain f2 where
    f2: "Write_int 1 (int n) f1 = (Returned (), f2)" "unat (fsize f2) = unat (fsize f1) + 1"
        "length (fdata f2) = 64" "frame_bytes f2 = frame_bytes f1 @ [of_nat n]"
    by auto
  from False f1 f2 show ?thesis
    by (simp add: write_header_def spec_header_def)
qed

lemma resolution_command_id:
  assumes "r \<noteq> kIgnore"
  obtains k where "k < 4" "resolution_command r = Inr (push_bit 2 (of_nat k))"
    "resolution_of_id k = r"
proof (cases r)
  case kInt8
  show ?thesis by (rule that [of 0]) (simp_all add: kInt8 resolution_of_id_def)
next
  case kInt16
  show ?thesis by (rule that [of 1]) (simp_all add: kInt16 resolution_of_id_def)
next
  case kInt32
  show ?thesis by (rule that [of 2]) (simp_all add: kInt32 resolution_of_id_def)
next
  case kFloat
  show ?thesis by (rule that [of 3]) (simp_all add: kFloat resolution_of_id_def)
next
  case kIgnore
  with assms show ?thesis by simp
qed

text \<open>A call whose resolution is the current one, and one that starts a run.\<close>

lemma MaybeWrite_same_run:
  assumes "wc_offset c < length (wc_resolutions c)"
    and "wc_resolutions c ! wc_offset c = wc_current_resolution c"
  shows "MaybeWrite c f =
           (Returned (wc_current_resolution c \<noteq> kIgnore), c\<lparr>wc_offset := Suc (wc_offset c)\<rparr>, f)"
  using assms by (simp add: MaybeWrite_def Let_def)

lemma MaybeWrite_new_run:
  assumes i: "wc_offset c < length (wc_resolutions c)"
    and new: "wc_resolutions c ! wc_offset c \<noteq> wc_current_resolution c"
    and ign: "wc_resolutions c ! wc_offset c \<noteq> kIgnore"
    and cmd: "resolution_command (wc_resolutions c ! wc_offset c) = Inr code"
    and n: "n = length (takeWhile (\<lambda>x. x = wc_resolutions c ! wc_offset c)
                  (drop (wc_offset c) (wc_resolutions c)))"
    and len: "length (fdata f) = 64"
    and room: "unat (fsize f) + length (spec_header (wc_base_command c + code) n) + 1 \<le> 64"
    and reg: "unat (wc_start_register c) + wc_offset c \<le> 127"
  shows "\<exists>f'. MaybeWrite c f =
             (Returned True,
              c\<lparr>wc_offset := Suc (wc_offset c),
                wc_current_resolution := wc_resolutions c ! wc_offset c\<rparr>, f')
           \<and> frame_bytes f' = frame_bytes f @ spec_header (wc_base_command c + code) n
                @ [of_nat (unat (wc_start_register c) + wc_offset c)]"
proof -
  let ?r = "wc_resolutions c ! wc_offset c"
  have d: "drop (wc_offset c) (wc_resolutions c) = ?r # drop (Suc (wc_offset c)) (wc_resolutions c)"
    using i by (simp add: Cons_nth_drop_Suc)
  have cnt: "count_run (wc_resolutions c) ?r (wc_offset c + 1) 1 = n"
    by (simp add: count_run_takeWhile n d)
  have "unat (fsize f) + length (spec_header (wc_base_command c + code) n) \<le> 64"
    using room by simp
  from write_header_ok [OF len this] obtain f2 where
    f2: "write_header (wc_base_command c + code) n f = (Returned (), f2)"
        "unat (fsize f2) = unat (fsize f) + length (spec_header (wc_base_command c + code) n)"
        "length (fdata f2) = 64"
        "frame_bytes f2 = frame_bytes f @ spec_header (wc_base_command c + code) n"
    by auto
  have "unat (fsize f2) + 1 \<le> 64" using f2(2) room by simp
  from Write_int_1_ok [OF f2(3) this, of "int (unat (wc_start_register c) + wc_offset c)"]
  obtain f3 where
    f3: "Write_int 1 (int (unat (wc_start_register c) + wc_offset c)) f2 = (Returned (), f3)"
        "frame_bytes f3 = frame_bytes f2 @ [of_nat (unat (wc_start_register c) + wc_offset c)]"
    by auto
  show ?thesis
    using i new ign cmd reg f2 f3 cnt
    by (simp add: MaybeWrite_def Let_def)
qed

lemma empty_frame_simps:
  "frame_bytes empty_frame = []" "length (fdata empty_frame) = 64" "unat (fsize empty_frame) = 0"
  by (simp_all add: frame_bytes_def empty_frame_def)

lemma combiner_example_short:
  "frame_bytes (snd (snd (MaybeWrite_times 2
      (WriteCombiner_new base 0 [kInt8, kInt8]) empty_frame))) = [base + 2, 0]"
proof -
  let ?c = "WriteCombiner_new base 0 [kInt8, kInt8]"
  from MaybeWrite_new_run [of ?c 0 2 empty_frame]
  obtain f1 where 1: "MaybeWrite ?c empty_frame =
      (Returned True, ?c\<lparr>wc_offset := Suc 0, wc_current_resolution := kInt8\<rparr>, f1)"
    "frame_bytes f1 = [base + 2, 0]"
    by (auto simp: WriteCombiner_new_def empty_frame_simps spec_header_def)
  have 2: "MaybeWrite (?c\<lparr>wc_offset := Suc 0, wc_current_resolution := kInt8\<rparr>) f1 =
      (Returned True, ?c\<lparr>wc_offset := Suc (Suc 0), wc_current_resolution := kInt8\<rparr>, f1)"
    by (subst MaybeWrite_same_run) (simp_all add: WriteCombiner_new_def)
  show ?thesis
    by (simp add: eval_nat_numeral 1 2)
qed

lemma combiner_example_long:
  "frame_bytes (snd (snd (MaybeWrite_times 4
      (WriteCombiner_new base 0 [kInt8, kInt8, kInt8, kInt8]) empty_frame))) = [base, 4, 0]"
proof -
  let ?c = "WriteCombiner_new base 0 [kInt8, kInt8, kInt8, kInt8]"
  let ?at = "\<lambda>n. ?c\<lparr>wc_offset := n, wc_current_resolution := kInt8\<rparr>"
  from MaybeWrite_new_run [of ?c 0 4 empty_frame]
  obtain f1 where 1: "MaybeWrite ?c empty_frame = (Returned True, ?at (Suc 0), f1)"
    "frame_bytes f1 = [base, 4, 0]"
    by (auto simp: WriteCombiner_new_def empty_frame_simps spec_header_def)
  have 2: "MaybeWrite (?at (Suc 0)) f1 = (Returned True, ?at (Suc (Suc 0)), f1)"
    by (subst MaybeWrite_same_run) (simp_all add: WriteCombiner_new_def)
  have 3: "MaybeWrite (?at (Suc (Suc 0))) f1 = (Returned True, ?at (Suc (Suc (Suc 0))), f1)"
    by (subst MaybeWrite_same_run) (simp_all add: WriteCombiner_new_def)
  have 4: "MaybeWrite (?at (Suc (Suc (Suc 0)))) f1 =
             (Returned True, ?at (Suc (Suc (Suc (Suc 0)))), f1)"
    by (subst MaybeWrite_same_run) (simp_all add: WriteCombiner_new_def)
  show ?thesis
    by (simp add: eval_nat_numeral 1 2 3 4)
qed

text \<open>
  C4. Let the combiner have been called \<open>length fs\<close> times since its construction over \<open>rs\<close>,
  and let position \<open>length fs\<close> start a run that is not \<open>kIgnore\<close> (the resolution there
  differs from the one before, or it is the first), of length \<open>count\<close>. With room in the
  frame and a register id of at most 127 the call returns true and appends the header
  and the register byte: the opcode is the base command plus the resolution code
  \<open>k\<close> shifted into bits 2 and 3, where \<open>k\<close> is the code the parser maps back to the
  resolution (0 int8, 1 int16, 2 int32, 3 float); one byte, opcode plus count, when
  \<open>count \<le> 3\<close>, otherwise the opcode byte and a count byte. For a base command whose low
  four bits are clear the sum is the bitwise or, bits 2 and 3 hold the code, and the low
  two bits hold the count in the short form and zero in the long form. Four \<open>kInt8\<close> give
  the long form, two give the short form.
\<close>

theorem MaybeWrite_header_form:
  assumes i: "length fs < length rs"
    and c: "c = combiner_after (WriteCombiner_new base start rs) fs"
    and run: "rs ! length fs \<noteq> kIgnore" "fs = [] \<or> rs ! (length fs - 1) \<noteq> rs ! length fs"
    and count: "count = length (takeWhile (\<lambda>r. r = rs ! length fs) (drop (length fs) rs))"
    and frame: "length (fdata f) = 64" "unat (fsize f) + (if count \<le> 3 then 2 else 3) \<le> 64"
    and reg: "unat start + length fs \<le> 127"
  shows "(\<exists>k<4. resolution_of_id k = rs ! length fs
          \<and> (\<exists>c' f'. MaybeWrite c f = (Returned True, c', f')
                \<and> frame_bytes f' = frame_bytes f
                     @ (if count \<le> 3 then [base + push_bit 2 (of_nat k) + of_nat count]
                        else [base + push_bit 2 (of_nat k), of_nat count])
                     @ [of_nat (unat start + length fs)])
          \<and> (base AND 0x0F = 0 \<longrightarrow>
                base + push_bit 2 (of_nat k) = base OR push_bit 2 (of_nat k)
                \<and> (base + push_bit 2 (of_nat k)) AND 3 = 0
                \<and> drop_bit 2 (base + push_bit 2 (of_nat k)) AND 3 = of_nat k
                \<and> (count \<le> 3 \<longrightarrow>
                      (base + push_bit 2 (of_nat k) + of_nat count) AND 3 = of_nat count
                      \<and> drop_bit 2 (base + push_bit 2 (of_nat k) + of_nat count) AND 3 = of_nat k)))
       \<and> frame_bytes (snd (snd (MaybeWrite_times 4
              (WriteCombiner_new base 0 [kInt8, kInt8, kInt8, kInt8]) empty_frame))) = [base, 4, 0]
       \<and> frame_bytes (snd (snd (MaybeWrite_times 2
              (WriteCombiner_new base 0 [kInt8, kInt8]) empty_frame))) = [base + 2, 0]"
    (is "?gen \<and> _ \<and> _")
proof -
  let ?c0 = "WriteCombiner_new base start rs"
  let ?r = "rs ! length fs"
  have f0: "wc_offset ?c0 = 0" "wc_resolutions ?c0 = rs" "wc_current_resolution ?c0 = kIgnore"
    "wc_start_register ?c0 = start" "wc_base_command ?c0 = base"
    by (simp_all add: WriteCombiner_new_def)
  have off: "wc_offset c = length fs" and res: "wc_resolutions c = rs"
    and st: "wc_start_register c = start" and bc: "wc_base_command c = base"
    using combiner_after_fields [of ?c0 fs] f0 c by simp_all
  have cur: "wc_current_resolution c = (if fs = [] then kIgnore else rs ! (length fs - 1))"
    using combiner_after_current [of ?c0 fs] f0 i c by simp
  have new: "wc_resolutions c ! wc_offset c \<noteq> wc_current_resolution c"
    using run cur off res by auto
  from run(1) obtain k where k: "k < 4" "resolution_command ?r = Inr (push_bit 2 (of_nat k))"
    "resolution_of_id k = ?r"
    by (rule resolution_command_id)
  have room: "unat (fsize f) + length (spec_header (wc_base_command c + push_bit 2 (of_nat k)) count) + 1 \<le> 64"
    using frame(2) by (simp add: spec_header_def split: if_splits)
  from MaybeWrite_new_run [of c "push_bit 2 (of_nat k)" count f]
  have w: "\<exists>c' f'. MaybeWrite c f = (Returned True, c', f')
                \<and> frame_bytes f' = frame_bytes f
                     @ (if count \<le> 3 then [base + push_bit 2 (of_nat k) + of_nat count]
                        else [base + push_bit 2 (of_nat k), of_nat count])
                     @ [of_nat (unat start + length fs)]"
    using i off res st bc new run(1) k(2) count frame(1) room reg
    by (cases "count \<le> 3") (auto simp: spec_header_def)
  have bits: "base + push_bit 2 (of_nat k) = base OR push_bit 2 (of_nat k)
                \<and> (base + push_bit 2 (of_nat k)) AND 3 = 0
                \<and> drop_bit 2 (base + push_bit 2 (of_nat k)) AND 3 = of_nat k
                \<and> (count \<le> 3 \<longrightarrow>
                      (base + push_bit 2 (of_nat k) + of_nat count) AND 3 = of_nat count
                      \<and> drop_bit 2 (base + push_bit 2 (of_nat k) + of_nat count) AND 3 = of_nat k)"
    if b: "base AND 0x0F = 0"
    using header_codes [OF b k(1), of 0] header_codes [OF b k(1), of count] by simp
  from k(1,3) w bits have "?gen" by blast
  with combiner_example_long combiner_example_short show ?thesis by simp
qed

theorem MaybeWrite_header_form_witness:
  "\<exists>c' f'. MaybeWrite (combiner_after (WriteCombiner_new 0x10 1 [kInt16, kInt16, kIgnore]) [])
              empty_frame = (Returned True, c', f')
           \<and> frame_bytes f' = [0x16, 0x01]"
proof -
  let ?rs = "[kInt16, kInt16, kIgnore]"
  have k1: "k = 1" if "k < 4" "resolution_of_id k = kInt16" for k
    using that by (auto simp: resolution_of_id_def split: if_splits)
  have e: "frame_bytes empty_frame = []" "length (fdata empty_frame) = 64"
    "unat (fsize empty_frame) = 0"
    by (simp_all add: frame_bytes_def empty_frame_def)
  from MaybeWrite_header_form [of "[]" ?rs _ "0x10" 1 2 empty_frame, OF _ refl]
  have "\<exists>k<4. resolution_of_id k = kInt16
          \<and> (\<exists>c' f'. MaybeWrite (combiner_after (WriteCombiner_new 0x10 1 ?rs) []) empty_frame
                       = (Returned True, c', f')
                \<and> frame_bytes f' = [0x10 + push_bit 2 (of_nat k) + 2, 1])"
    by (auto simp: e)
  then obtain k where "k < 4" "resolution_of_id k = kInt16"
    and m: "\<exists>c' f'. MaybeWrite (combiner_after (WriteCombiner_new 0x10 1 ?rs) []) empty_frame
                       = (Returned True, c', f')
                \<and> frame_bytes f' = [0x10 + push_bit 2 (of_nat k) + 2, 1]"
    by blast
  then have "k = 1" using k1 by blast
  with m show ?thesis by simp
qed

text \<open>
  C6. For a combiner constructed over \<open>rs\<close> and called \<open>i = length fs\<close> times, \<open>i < N\<close>: when
  the next call (the one for register \<open>i\<close>) returns, it returns true exactly when \<open>rs ! i\<close>
  is not \<open>kIgnore\<close>; for \<open>kIgnore\<close> it returns false and leaves the frame as it was; and for
  another resolution it does return true when the frame has three bytes of room and the
  register id is at most 127.
\<close>

theorem MaybeWrite_true_iff_not_ignore:
  assumes i: "length fs < length rs"
    and c: "c = combiner_after (WriteCombiner_new base start rs) fs"
  shows "(\<forall>b c' f'. MaybeWrite c f = (Returned b, c', f') \<longrightarrow> b = (rs ! length fs \<noteq> kIgnore))
       \<and> (rs ! length fs = kIgnore \<longrightarrow> (\<exists>c'. MaybeWrite c f = (Returned False, c', f)))
       \<and> (rs ! length fs \<noteq> kIgnore \<and> length (fdata f) = 64 \<and> unat (fsize f) + 3 \<le> 64
            \<and> unat start + length fs \<le> 127 \<longrightarrow>
            (\<exists>c' f'. MaybeWrite c f = (Returned True, c', f')))"
proof -
  let ?c0 = "WriteCombiner_new base start rs"
  have f0: "wc_offset ?c0 = 0" "wc_resolutions ?c0 = rs" "wc_current_resolution ?c0 = kIgnore"
    "wc_start_register ?c0 = start"
    by (simp_all add: WriteCombiner_new_def)
  have off: "wc_offset c = length fs" and res: "wc_resolutions c = rs"
    and st: "wc_start_register c = start"
    using combiner_after_fields [of ?c0 fs] f0 c by simp_all
  have cur: "wc_current_resolution c = (if fs = [] then kIgnore else rs ! (length fs - 1))"
    using combiner_after_current [of ?c0 fs] f0 i c by simp
  have 1: "\<forall>b c' f'. MaybeWrite c f = (Returned b, c', f') \<longrightarrow> b = (rs ! length fs \<noteq> kIgnore)"
    using i off res
    by (auto simp: MaybeWrite_def Let_def split: sum.splits prod.splits outcome.splits if_splits)
  have 2: "rs ! length fs = kIgnore \<longrightarrow> (\<exists>c'. MaybeWrite c f = (Returned False, c', f))"
    using i off res by (simp add: MaybeWrite_def Let_def)
  have 3: "\<exists>c' f'. MaybeWrite c f = (Returned True, c', f')"
    if h: "rs ! length fs \<noteq> kIgnore" "length (fdata f) = 64" "unat (fsize f) + 3 \<le> 64"
      "unat start + length fs \<le> 127"
  proof (cases "wc_current_resolution c = rs ! length fs")
    case True
    with i off res h(1) show ?thesis by (simp add: MaybeWrite_def Let_def)
  next
    case False
    from h(1) obtain k where k: "resolution_command (rs ! length fs) = Inr (push_bit 2 (of_nat k))"
      by (rule resolution_command_id)
    define n where "n = length (takeWhile (\<lambda>x. x = rs ! length fs) (drop (length fs) rs))"
    have "length (spec_header (wc_base_command c + push_bit 2 (of_nat k)) n) \<le> 2"
      by (simp add: spec_header_def)
    with h(3) have room: "unat (fsize f) + length (spec_header (wc_base_command c + push_bit 2 (of_nat k)) n) + 1 \<le> 64"
      by simp
    from MaybeWrite_new_run [of c "push_bit 2 (of_nat k)" n f] i off res st False h k n_def room
    show ?thesis by auto
  qed
  from 1 2 3 show ?thesis by blast
qed

theorem MaybeWrite_true_iff_not_ignore_witness:
  "(\<exists>c'. MaybeWrite (combiner_after (WriteCombiner_new 0 0x20 [kFloat, kIgnore]) [empty_frame])
            empty_frame = (Returned False, c', empty_frame))
   \<and> (\<exists>c' f'. MaybeWrite (combiner_after (WriteCombiner_new 0 0x20 [kFloat, kIgnore]) [])
            empty_frame = (Returned True, c', f'))"
proof -
  from MaybeWrite_true_iff_not_ignore [of "[empty_frame]" "[kFloat, kIgnore]" _ 0 "0x20" empty_frame, OF _ refl]
  have "\<exists>c'. MaybeWrite (combiner_after (WriteCombiner_new 0 0x20 [kFloat, kIgnore]) [empty_frame])
            empty_frame = (Returned False, c', empty_frame)"
    by simp
  moreover
  from MaybeWrite_true_iff_not_ignore [of "[]" "[kFloat, kIgnore]" _ 0 "0x20" empty_frame, OF _ refl]
  have "\<exists>c' f'. MaybeWrite (combiner_after (WriteCombiner_new 0 0x20 [kFloat, kIgnore]) [])
            empty_frame = (Returned True, c', f')"
    by (simp add: empty_frame_def)
  ultimately show ?thesis by simp
qed

text \<open>
  C7. The destructor of a combiner constructed over \<open>N\<close> resolutions aborts exactly when
  the number of calls to \<open>MaybeWrite\<close> made on it, whether they returned or threw, is not
  \<open>N\<close>: fewer or more calls abort, \<open>N\<close> calls do not. (\<open>offset_++\<close> is the first statement
  of every call, before the array is indexed.)
\<close>

theorem destructor_aborts_iff:
  "destructor_aborts (combiner_after (WriteCombiner_new base start rs) fs)
     \<longleftrightarrow> length fs \<noteq> length rs"
  using combiner_after_fields [of "WriteCombiner_new base start rs" fs]
  by (simp add: destructor_aborts_def WriteCombiner_new_def)

section \<open>Multiplex parser\<close>

lemma ResolutionSize_pos: "0 < ResolutionSize r"
  by (cases r) simp_all

lemma begin_run_ok:
  assumes "wf_parser p" "mp_offset p < unat (mp_size p)"
  shows "begin_run p n \<noteq> Inl e"
  using assms by (simp add: begin_run_def wf_parser_def Let_def)

lemma begin_run_result:
  assumes "begin_run p n = Inr ((b, r, res), p')"
  shows "mp_data p' = mp_data p \<and> mp_size p' = mp_size p \<and> mp_offset p' = mp_offset p + 1
       \<and> (b \<longrightarrow> mp_offset p' + ResolutionSize res \<le> unat (mp_size p') \<and> res = mp_current_resolution p)
       \<and> (\<not> b \<longrightarrow> (b, r, res) = no_entry
              \<and> mp_offset p' + ResolutionSize (mp_current_resolution p) > unat (mp_size p'))"
  using assms by (auto simp: begin_run_def Let_def no_entry_def split: if_splits)

text \<open>The branches of one pass through the loop of \<open>next\<close>.\<close>

lemma scan_done:
  "\<not> mp_offset p < unat (mp_size p) \<Longrightarrow> scan p = Inr (no_entry, p)"
  by (subst scan.simps) simp

lemma scan_nop:
  "mp_offset p < unat (mp_size p) \<Longrightarrow> mp_offset p < length (mp_data p)
   \<Longrightarrow> mp_data p ! mp_offset p = 0x50
   \<Longrightarrow> scan p = scan (p\<lparr>mp_offset := mp_offset p + 1\<rparr>)"
  by (subst scan.simps) (simp add: Let_def uint_0_iff)

lemma scan_last_byte:
  "mp_offset p < unat (mp_size p) \<Longrightarrow> mp_offset p < length (mp_data p)
   \<Longrightarrow> mp_data p ! mp_offset p \<noteq> 0x50 \<Longrightarrow> unat (mp_size p) \<le> mp_offset p + 1
   \<Longrightarrow> scan p = Inr (no_entry, p\<lparr>mp_offset := mp_offset p + 1\<rparr>)"
  by (subst scan.simps) (simp add: Let_def uint_0_iff)

lemma scan_other:
  "mp_offset p + 1 < unat (mp_size p) \<Longrightarrow> mp_offset p < length (mp_data p)
   \<Longrightarrow> mp_data p ! mp_offset p \<noteq> 0x50
   \<Longrightarrow> \<not> (0x20 \<le> mp_data p ! mp_offset p \<and> mp_data p ! mp_offset p < 0x30)
   \<Longrightarrow> scan p = Inr (no_entry, p\<lparr>mp_offset := unat (mp_size p)\<rparr>)"
  by (subst scan.simps) (auto simp: Let_def)

lemma reply_not_nop: "0x20 \<le> (cmd :: 8 word) \<Longrightarrow> cmd < 0x30 \<Longrightarrow> cmd \<noteq> 0x50"
  by auto

lemma scan_short:
  "mp_offset p + 1 < unat (mp_size p) \<Longrightarrow> mp_offset p < length (mp_data p)
   \<Longrightarrow> cmd = mp_data p ! mp_offset p \<Longrightarrow> 0x20 \<le> cmd \<Longrightarrow> cmd < 0x30
   \<Longrightarrow> cmd AND 0x03 \<noteq> 0
   \<Longrightarrow> scan p = begin_run
         (p\<lparr>mp_offset := mp_offset p + 1,
            mp_current_resolution := resolution_of_id (unat (drop_bit 2 cmd AND 0x03))\<rparr>)
         (uint (cmd AND 0x03))"
  using reply_not_nop [of cmd]
  by (subst scan.simps) (simp add: Let_def uint_0_iff)

lemma scan_long_cut:
  "mp_offset p + 1 < unat (mp_size p) \<Longrightarrow> mp_offset p + 1 < length (mp_data p)
   \<Longrightarrow> cmd = mp_data p ! mp_offset p \<Longrightarrow> 0x20 \<le> cmd \<Longrightarrow> cmd < 0x30
   \<Longrightarrow> cmd AND 0x03 = 0 \<Longrightarrow> unat (mp_size p) \<le> mp_offset p + 2
   \<Longrightarrow> scan p = Inr (no_entry,
         p\<lparr>mp_current_resolution := resolution_of_id (unat (drop_bit 2 cmd AND 0x03)),
           mp_offset := mp_offset p + 2\<rparr>)"
  using reply_not_nop [of cmd]
  by (subst scan.simps) (simp add: Let_def uint_0_iff)

lemma scan_long_empty:
  "mp_offset p + 2 < unat (mp_size p) \<Longrightarrow> mp_offset p + 1 < length (mp_data p)
   \<Longrightarrow> cmd = mp_data p ! mp_offset p \<Longrightarrow> 0x20 \<le> cmd \<Longrightarrow> cmd < 0x30
   \<Longrightarrow> cmd AND 0x03 = 0 \<Longrightarrow> mp_data p ! (mp_offset p + 1) = 0
   \<Longrightarrow> scan p = scan
         (p\<lparr>mp_current_resolution := resolution_of_id (unat (drop_bit 2 cmd AND 0x03)),
            mp_offset := mp_offset p + 2\<rparr>)"
  using reply_not_nop [of cmd]
  by (subst scan.simps) (simp add: Let_def uint_0_iff)

lemma scan_long:
  "mp_offset p + 2 < unat (mp_size p) \<Longrightarrow> mp_offset p + 1 < length (mp_data p)
   \<Longrightarrow> cmd = mp_data p ! mp_offset p \<Longrightarrow> 0x20 \<le> cmd \<Longrightarrow> cmd < 0x30
   \<Longrightarrow> cmd AND 0x03 = 0 \<Longrightarrow> mp_data p ! (mp_offset p + 1) \<noteq> 0
   \<Longrightarrow> scan p = begin_run
         (p\<lparr>mp_current_resolution := resolution_of_id (unat (drop_bit 2 cmd AND 0x03)),
            mp_offset := mp_offset p + 2\<rparr>)
         (uint (mp_data p ! (mp_offset p + 1)))"
  using reply_not_nop [of cmd]
  by (subst scan.simps) (simp add: Let_def uint_0_iff)


lemma scan_result:
  assumes "wf_parser p" "scan p = Inr ((b, r, res), p')"
  shows "mp_data p' = mp_data p \<and> mp_size p' = mp_size p \<and> mp_offset p \<le> mp_offset p'
       \<and> (b \<longrightarrow> mp_offset p' + ResolutionSize res \<le> unat (mp_size p'))
       \<and> (\<not> b \<longrightarrow> (b, r, res) = no_entry)"
  using assms
proof (induction p rule: scan.induct)
  case (1 p)
  note wf = "1.prems"(1) and res = "1.prems"(2)
  let ?o = "mp_offset p"
  let ?cmd = "mp_data p ! ?o"
  let ?r = "resolution_of_id (unat (drop_bit 2 ?cmd AND 0x03))"
  show ?case
  proof (cases "?o < unat (mp_size p)")
    case False
    with res show ?thesis by (auto simp: scan_done no_entry_def)
  next
    case lt: True
    with wf have inb: "?o < length (mp_data p)"
      by (simp add: wf_parser_def)
    let ?p1 = "p\<lparr>mp_offset := ?o + 1\<rparr>"
    have wf1: "wf_parser ?p1" using wf by (simp add: wf_parser_def)
    show ?thesis
    proof (cases "?cmd = 0x50")
      case True
      from res have "scan ?p1 = Inr ((b, r, res), p')"
        by (simp add: scan_nop [OF lt inb True])
      from "1.IH"(1) [OF lt _ refl refl True wf1 this] inb
      show ?thesis by auto
    next
      case nnop: False
      show ?thesis
      proof (cases "unat (mp_size p) \<le> ?o + 1")
        case True
        from res show ?thesis
          by (auto simp: scan_last_byte [OF lt inb nnop True] no_entry_def)
      next
        case False
        then have more: "?o + 1 < unat (mp_size p)" by simp
        with wf have inb2: "?o + 1 < length (mp_data p)" by (simp add: wf_parser_def)
        show ?thesis
        proof (cases "0x20 \<le> ?cmd \<and> ?cmd < 0x30")
          case False
          from res more show ?thesis
            by (auto simp: scan_other [OF more inb nnop False] no_entry_def)
        next
          case True
          then have reply: "0x20 \<le> ?cmd" "?cmd < 0x30" by simp_all
          show ?thesis
          proof (cases "?cmd AND 0x03 = 0")
            case False
            from res have "begin_run (p\<lparr>mp_offset := ?o + 1, mp_current_resolution := ?r\<rparr>)
                             (uint (?cmd AND 0x03)) = Inr ((b, r, res), p')"
              by (simp add: scan_short [OF more inb refl reply False])
            from begin_run_result [OF this] show ?thesis by auto
          next
            case long: True
            show ?thesis
            proof (cases "unat (mp_size p) \<le> ?o + 2")
              case True
              from res show ?thesis
                by (auto simp: scan_long_cut [OF more inb2 refl reply long True] no_entry_def)
            next
              case False
              then have more2: "?o + 2 < unat (mp_size p)" by simp
              let ?p3 = "p\<lparr>mp_current_resolution := ?r, mp_offset := ?o + 2\<rparr>"
              have wf3: "wf_parser ?p3" using wf by (simp add: wf_parser_def)
              show ?thesis
              proof (cases "mp_data p ! (?o + 1) = 0")
                case True
                from res have s3: "scan ?p3 = Inr ((b, r, res), p')"
                  by (simp add: scan_long_empty [OF more2 inb2 refl reply long True])
                have "mp_data ?p3 = mp_data p \<and> mp_size ?p3 = mp_size p \<and> mp_offset ?p3 = ?o + 2"
                  by simp
                moreover
                from "1.IH"(2) [OF lt _ refl refl nnop _ _ refl refl _ _ refl refl]
                  inb inb2 more more2 reply long True wf3 s3
                have "mp_data p' = mp_data ?p3 \<and> mp_size p' = mp_size ?p3
                      \<and> mp_offset ?p3 \<le> mp_offset p'
                      \<and> (b \<longrightarrow> mp_offset p' + ResolutionSize res \<le> unat (mp_size p'))
                      \<and> (\<not> b \<longrightarrow> (b, r, res) = no_entry)"
                  by (auto simp: uint_0_iff)
                ultimately show ?thesis by auto
              next
                case False
                from res have "begin_run ?p3 (uint (mp_data p ! (?o + 1))) = Inr ((b, r, res), p')"
                  by (simp add: scan_long [OF more2 inb2 refl reply long False])
                from begin_run_result [OF this] show ?thesis by auto
              qed
            qed
          qed
        qed
      qed
    qed
  qed
qed

lemma scanning_scan: "scanning p q \<Longrightarrow> scan p = scan q"
proof (induction rule: scanning.induct)
  case (here p)
  show ?case by simp
next
  case (nop p q)
  then show ?case by (simp add: scan_nop)
next
  case (empty p cmd q)
  then show ?case by (simp add: scan_long_empty)
qed

lemma scanning_fields:
  "scanning p q \<Longrightarrow> mp_data q = mp_data p \<and> mp_size q = mp_size p
     \<and> mp_remaining q = mp_remaining p \<and> mp_offset p \<le> mp_offset q"
  by (induction rule: scanning.induct) auto

lemma scan_ok: "wf_parser p \<Longrightarrow> scan p \<noteq> Inl e"
proof (induction p rule: scan.induct)
  case (1 p)
  show ?case
  proof (cases "mp_offset p < unat (mp_size p)")
    case False
    then show ?thesis by (subst scan.simps) (simp add: no_entry_def)
  next
    case lt: True
    with "1.prems" have inb: "mp_offset p < length (mp_data p)"
      by (simp add: wf_parser_def)
    let ?cmd = "mp_data p ! mp_offset p"
    let ?p1 = "p\<lparr>mp_offset := mp_offset p + 1\<rparr>"
    have wf1: "wf_parser ?p1" using "1.prems" by (simp add: wf_parser_def)
    show ?thesis
    proof (cases "?cmd = 0x50")
      case True
      from "1.IH"(1) [OF lt _ refl refl True wf1] inb True lt
      show ?thesis by (subst scan.simps) (simp add: Let_def no_entry_def)
    next
      case nnop: False
      show ?thesis
      proof (cases "unat (mp_size p) \<le> mp_offset p + 1")
        case True
        with lt inb nnop show ?thesis by (subst scan.simps) (simp add: Let_def no_entry_def)
      next
        case more: False
        show ?thesis
        proof (cases "0x20 \<le> ?cmd \<and> ?cmd < 0x30")
          case False
          with lt inb nnop more show ?thesis by (subst scan.simps) (auto simp: Let_def no_entry_def)
        next
          case reply: True
          let ?p2 = "?p1\<lparr>mp_current_resolution := resolution_of_id (unat (drop_bit 2 ?cmd AND 0x03))\<rparr>"
          have wf2: "wf_parser ?p2" using "1.prems" by (simp add: wf_parser_def)
          show ?thesis
          proof (cases "uint (?cmd AND 0x03) = 0")
            case False
            from begin_run_ok [OF wf2, of "uint (?cmd AND 0x03)" e] more
            have "begin_run ?p2 (uint (?cmd AND 0x03)) \<noteq> Inl e" by simp
            with lt inb nnop more reply False show ?thesis
              by (subst scan.simps) (simp add: Let_def no_entry_def)
          next
            case long: True
            have inb2: "mp_offset ?p2 < length (mp_data ?p2)"
              using more "1.prems" by (simp add: wf_parser_def)
            let ?p3 = "?p2\<lparr>mp_offset := mp_offset ?p2 + 1\<rparr>"
            have wf3: "wf_parser ?p3" using "1.prems" by (simp add: wf_parser_def)
            show ?thesis
            proof (cases "unat (mp_size p) \<le> mp_offset p + 2")
              case True
              with lt inb nnop more reply long inb2 show ?thesis
                by (subst scan.simps) (simp add: Let_def no_entry_def)
            next
              case more2: False
              show ?thesis
              proof (cases "uint (mp_data ?p2 ! mp_offset ?p2) = 0")
                case True
                from "1.IH"(2) [OF lt _ refl refl nnop _ reply refl refl long _ refl refl _ True wf3]
                  inb inb2 more more2
                have "scan ?p3 \<noteq> Inl e" by simp
                with lt inb nnop more reply long inb2 more2 True show ?thesis
                  by (subst scan.simps) (simp add: Let_def no_entry_def)
              next
                case False
                from begin_run_ok [OF wf3, of "uint (mp_data ?p2 ! mp_offset ?p2)" e] more2
                have "begin_run ?p3 (uint (mp_data ?p2 ! mp_offset ?p2)) \<noteq> Inl e"
                  by simp
                with lt inb nnop more reply long inb2 more2 False show ?thesis
                  by (subst scan.simps) (simp add: Let_def no_entry_def)
              qed
            qed
          qed
        qed
      qed
    qed
  qed
qed

lemma next_exhausted:
  "unat (mp_size p) \<le> mp_offset p \<Longrightarrow> MultiplexParser_next p = Inr (no_entry, p)"
  by (simp add: MultiplexParser_next_def)

lemma next_scan:
  "mp_offset p < unat (mp_size p) \<Longrightarrow> mp_remaining p = 0 \<Longrightarrow> MultiplexParser_next p = scan p"
  by (simp add: MultiplexParser_next_def)

lemma next_ok: "wf_parser p \<Longrightarrow> MultiplexParser_next p \<noteq> Inl e"
  by (simp add: MultiplexParser_next_def Let_def scan_ok)

lemma next_result:
  assumes "wf_parser p" "MultiplexParser_next p = Inr ((b, r, res), p')"
  shows "mp_data p' = mp_data p \<and> mp_size p' = mp_size p \<and> mp_offset p \<le> mp_offset p'
       \<and> (b \<longrightarrow> mp_offset p' + ResolutionSize res \<le> unat (mp_size p'))
       \<and> (\<not> b \<longrightarrow> (b, r, res) = no_entry)"
proof (cases "mp_offset p < unat (mp_size p) \<and> mp_remaining p = 0")
  case True
  with assms(2) have "scan p = Inr ((b, r, res), p')"
    by (simp add: next_scan)
  from scan_result [OF assms(1) this] show ?thesis .
next
  case False
  with assms(2) show ?thesis
    by (auto simp: MultiplexParser_next_def Let_def no_entry_def split: if_splits)
qed

lemma nth_next_exhausted:
  "unat (mp_size p) \<le> mp_offset p \<Longrightarrow> nth_next n p = Inr (no_entry, p)"
  by (induction n) (simp_all add: next_exhausted)

lemma scan_header_cut:
  assumes wf: "wf_parser p"
    and lt: "mp_offset p < unat (mp_size p)"
    and cmd: "cmd = mp_data p ! mp_offset p" "0x20 \<le> cmd" "cmd < 0x30"
    and cut: "unat (mp_size p) \<le> mp_offset p + 1
       \<or> cmd AND 0x03 = 0 \<and> unat (mp_size p) \<le> mp_offset p + 2
       \<or> cmd AND 0x03 \<noteq> 0
           \<and> unat (mp_size p) < mp_offset p + 2
                + ResolutionSize (resolution_of_id (unat (drop_bit 2 cmd AND 0x03)))
       \<or> cmd AND 0x03 = 0 \<and> mp_data p ! (mp_offset p + 1) \<noteq> 0
           \<and> unat (mp_size p) < mp_offset p + 3
                + ResolutionSize (resolution_of_id (unat (drop_bit 2 cmd AND 0x03)))"
  shows "\<exists>p'. scan p = Inr (no_entry, p')"
proof -
  from wf lt have inb: "mp_offset p < length (mp_data p)" by (simp add: wf_parser_def)
  have nnop: "mp_data p ! mp_offset p \<noteq> 0x50"
    using reply_not_nop cmd by simp
  show ?thesis
  proof (cases "unat (mp_size p) \<le> mp_offset p + 1")
    case True
    then show ?thesis by (simp add: scan_last_byte [OF lt inb nnop])
  next
    case False
    then have more: "mp_offset p + 1 < unat (mp_size p)" by simp
    with wf have inb2: "mp_offset p + 1 < length (mp_data p)" by (simp add: wf_parser_def)
    show ?thesis
    proof (cases "cmd AND 0x03 = 0")
      case short: False
      with cut more have "unat (mp_size p) < mp_offset p + 2
                + ResolutionSize (resolution_of_id (unat (drop_bit 2 cmd AND 0x03)))"
        by auto
      with inb2 show ?thesis
        by (simp add: scan_short [OF more inb cmd short] begin_run_def Let_def)
    next
      case long: True
      show ?thesis
      proof (cases "unat (mp_size p) \<le> mp_offset p + 2")
        case True
        then show ?thesis by (simp add: scan_long_cut [OF more inb2 cmd long])
      next
        case False
        then have more2: "mp_offset p + 2 < unat (mp_size p)" by simp
        with wf have inb3: "mp_offset p + 2 < length (mp_data p)" by (simp add: wf_parser_def)
        from cut more more2 long
        have c: "mp_data p ! (mp_offset p + 1) \<noteq> 0"
          "unat (mp_size p) < mp_offset p + 3
                + ResolutionSize (resolution_of_id (unat (drop_bit 2 cmd AND 0x03)))"
          by auto
        show ?thesis
          using c(2) inb3
          by (simp add: scan_long [OF more2 inb2 cmd long c(1)] begin_run_def Let_def)
      qed
    qed
  qed
qed

lemma scan_bad_opcode:
  assumes wf: "wf_parser p"
    and lt: "mp_offset p < unat (mp_size p)"
    and bad: "mp_data p ! mp_offset p \<noteq> 0x50"
      "\<not> (0x20 \<le> mp_data p ! mp_offset p \<and> mp_data p ! mp_offset p < 0x30)"
  shows "scan p = Inr (no_entry, p\<lparr>mp_offset := unat (mp_size p)\<rparr>)"
proof -
  from wf lt have inb: "mp_offset p < length (mp_data p)" by (simp add: wf_parser_def)
  show ?thesis
  proof (cases "unat (mp_size p) \<le> mp_offset p + 1")
    case True
    with lt have "mp_offset p + 1 = unat (mp_size p)" by simp
    with scan_last_byte [OF lt inb bad(1) True] show ?thesis by simp
  next
    case False
    then have "mp_offset p + 1 < unat (mp_size p)" by simp
    from scan_other [OF this inb bad] show ?thesis .
  qed
qed

lemma size_of_ResolutionSize: "res \<noteq> kIgnore \<Longrightarrow> size_of res = ResolutionSize res"
  by (cases res) simp_all

lemma code_lt_4: "unat ((x :: 8 word) AND 0x03) < 4"
proof -
  have "x AND 0x03 \<le> 0x03" by (rule word_and_le1)
  then show ?thesis by (simp add: word_le_nat_alt)
qed

lemma spec_resolution_eq: "c < 4 \<Longrightarrow> spec_resolution c = resolution_of_id c"
  by (auto simp: spec_resolution_def resolution_of_id_def)

lemma resolution_of_id_not_ignore: "resolution_of_id c \<noteq> kIgnore"
  by (simp add: resolution_of_id_def)

lemma unread_fields [simp]:
  "unread (p\<lparr>mp_remaining := a\<rparr>) = unread p"
  "unread (p\<lparr>mp_current_resolution := b\<rparr>) = unread p"
  "unread (p\<lparr>mp_current_register := c\<rparr>) = unread p"
  by (simp_all add: unread_def)

lemma unread_empty: "unat (mp_size p) \<le> mp_offset p \<Longrightarrow> unread p = []"
  by (simp add: unread_def)

lemma length_unread: "wf_parser p \<Longrightarrow> length (unread p) = unat (mp_size p) - mp_offset p"
  by (simp add: unread_def wf_parser_def)

lemma unread_Cons:
  assumes "wf_parser p" "mp_offset p < unat (mp_size p)"
  shows "unread p = mp_data p ! mp_offset p # unread (p\<lparr>mp_offset := mp_offset p + 1\<rparr>)"
proof -
  let ?xs = "take (unat (mp_size p)) (mp_data p)"
  have l: "mp_offset p < length ?xs" using assms by (simp add: wf_parser_def)
  have "drop (mp_offset p) ?xs = ?xs ! mp_offset p # drop (Suc (mp_offset p)) ?xs"
    using l by (rule Cons_nth_drop_Suc [symmetric])
  with assms(2) show ?thesis by (simp add: unread_def)
qed

lemma unread_offset: "unread (p\<lparr>mp_offset := mp_offset p + n\<rparr>) = drop n (unread p)"
  by (simp add: unread_def add.commute)

lemma spec_elements_InRun_0 [simp]:
  "spec_elements (InRun 0 res reg) pos bs = spec_elements ScanningForHeader pos bs"
  by (simp add: spec_elements.simps)

lemma spec_elements_Nil [simp]: "spec_elements ScanningForHeader pos [] = []"
  by (simp add: spec_elements.simps)

lemma spec_elements_short:
  "0 < n \<Longrightarrow> length bs < size_of res \<Longrightarrow> spec_elements (InRun n res reg) pos bs = []"
  by (simp add: spec_elements.simps)

lemma spec_elements_yield:
  "0 < n \<Longrightarrow> size_of res \<le> length bs \<Longrightarrow>
   spec_elements (InRun n res reg) pos bs
     = (reg, res, pos) # spec_elements (InRun (n - 1) res (reg + 1)) (pos + size_of res)
                           (drop (size_of res) bs)"
  by (simp add: spec_elements.simps)

lemma begin_run_spec:
  assumes wf: "wf_parser q" and lt: "mp_offset q < unat (mp_size q)"
    and c: "0 < c" and r: "mp_current_resolution q \<noteq> kIgnore"
    and b: "begin_run q c = Inr ((b, r, res), p')"
  shows "spec_elements (InRun (nat c) (mp_current_resolution q) (ucast (mp_data q ! mp_offset q)))
            (mp_offset q + 1) (unread (q\<lparr>mp_offset := mp_offset q + 1\<rparr>))
          = (if b then (r, res, mp_offset p')
                  # spec_elements (InRun (nat (mp_remaining p')) res (r + 1))
                      (mp_offset p' + size_of res) (drop (size_of res) (unread p'))
             else [])
       \<and> (b \<longrightarrow> 0 \<le> mp_remaining p' \<and> mp_current_resolution p' = res
              \<and> mp_current_register p' = r + 1 \<and> res \<noteq> kIgnore)
       \<and> wf_parser p'"
proof -
  let ?q1 = "q\<lparr>mp_offset := mp_offset q + 1\<rparr>"
  let ?res = "mp_current_resolution q"
  have inb: "mp_offset q < length (mp_data q)" using wf lt by (simp add: wf_parser_def)
  have wf1: "wf_parser ?q1" using wf by (simp add: wf_parser_def)
  have len: "length (unread ?q1) = unat (mp_size q) - (mp_offset q + 1)"
    using length_unread [OF wf1] by simp
  have sz: "size_of ?res = ResolutionSize ?res" using r by (rule size_of_ResolutionSize)
  show ?thesis
  proof (cases "mp_offset q + 1 + ResolutionSize ?res > unat (mp_size q)")
    case True
    with b inb have "b = False" "wf_parser p'"
      using wf by (auto simp: begin_run_def Let_def no_entry_def wf_parser_def)
    moreover have "spec_elements (InRun (nat c) ?res (ucast (mp_data q ! mp_offset q)))
            (mp_offset q + 1) (unread ?q1) = []"
      using c True len sz ResolutionSize_pos [of ?res] by (intro spec_elements_short) (simp, arith)
    ultimately show ?thesis by simp
  next
    case False
    with b inb have p': "b = True" "r = ucast (mp_data q ! mp_offset q)" "res = ?res"
      "p' = q\<lparr>mp_current_register := ucast (mp_data q ! mp_offset q),
              mp_offset := mp_offset q + 1, mp_remaining := c - 1,
              mp_current_register := ucast (mp_data q ! mp_offset q) + 1\<rparr>"
      by (auto simp: begin_run_def Let_def no_entry_def)
    have u: "unread p' = unread ?q1" by (simp add: p'(4) unread_def)
    have "spec_elements (InRun (nat c) ?res (ucast (mp_data q ! mp_offset q)))
            (mp_offset q + 1) (unread ?q1)
        = (ucast (mp_data q ! mp_offset q), ?res, mp_offset q + 1)
            # spec_elements (InRun (nat c - 1) ?res (ucast (mp_data q ! mp_offset q) + 1))
                (mp_offset q + 1 + size_of ?res) (drop (size_of ?res) (unread ?q1))"
      using c False len sz by (intro spec_elements_yield) simp_all
    moreover have "nat c - 1 = nat (c - 1)" using c by simp
    ultimately show ?thesis
      using c r wf by (simp add: p' u wf_parser_def)
  qed
qed

lemma spec_scan_nop:
  "spec_elements ScanningForHeader pos (0x50 # bs) = spec_elements ScanningForHeader (pos + 1) bs"
  by (simp add: spec_elements.simps)

lemma spec_scan_other:
  "cmd \<noteq> 0x50 \<Longrightarrow> \<not> (0x20 \<le> cmd \<and> cmd < 0x30)
   \<Longrightarrow> spec_elements ScanningForHeader pos (cmd # bs) = []"
  by (auto simp: spec_elements.simps)

lemma spec_scan_last:
  "cmd \<noteq> 0x50 \<Longrightarrow> spec_elements ScanningForHeader pos [cmd] = []"
  by (simp add: spec_elements.simps Let_def)

lemma spec_scan_short:
  "0x20 \<le> cmd \<Longrightarrow> cmd < 0x30 \<Longrightarrow> cmd AND 0x03 \<noteq> 0
   \<Longrightarrow> spec_elements ScanningForHeader pos (cmd # reg # bs)
       = spec_elements (InRun (unat (cmd AND 0x03))
            (spec_resolution (unat (drop_bit 2 cmd AND 0x03))) (ucast reg)) (pos + 2) bs"
  using reply_not_nop [of cmd]
  by (simp add: spec_elements.simps Let_def unat_eq_0)

lemma spec_scan_long_cut:
  "0x20 \<le> cmd \<Longrightarrow> cmd < 0x30 \<Longrightarrow> cmd AND 0x03 = 0
   \<Longrightarrow> spec_elements ScanningForHeader pos [cmd, n] = []"
  using reply_not_nop [of cmd]
  by (simp add: spec_elements.simps(3) Let_def)

lemma spec_scan_long_empty:
  "0x20 \<le> cmd \<Longrightarrow> cmd < 0x30 \<Longrightarrow> cmd AND 0x03 = 0
   \<Longrightarrow> spec_elements ScanningForHeader pos (cmd # 0 # bs)
       = spec_elements ScanningForHeader (pos + 2) bs"
  using reply_not_nop [of cmd]
  by (simp add: spec_elements.simps Let_def)

lemma spec_scan_long:
  "0x20 \<le> cmd \<Longrightarrow> cmd < 0x30 \<Longrightarrow> cmd AND 0x03 = 0 \<Longrightarrow> n \<noteq> 0
   \<Longrightarrow> spec_elements ScanningForHeader pos (cmd # n # reg # bs)
       = spec_elements (InRun (unat n)
            (spec_resolution (unat (drop_bit 2 cmd AND 0x03))) (ucast reg)) (pos + 3) bs"
  using reply_not_nop [of cmd]
  by (simp add: spec_elements.simps Let_def)

lemma unread_step:
  assumes "wf_parser p" "k < unat (mp_size p)"
  shows "drop k (take (unat (mp_size p)) (mp_data p))
           = mp_data p ! k # drop (k + 1) (take (unat (mp_size p)) (mp_data p))"
proof -
  let ?xs = "take (unat (mp_size p)) (mp_data p)"
  have l: "k < length ?xs" using assms by (simp add: wf_parser_def)
  have "drop k ?xs = ?xs ! k # drop (Suc k) ?xs"
    using l by (rule Cons_nth_drop_Suc [symmetric])
  with assms(2) show ?thesis by simp
qed

lemma scan_spec:
  assumes "wf_parser p" "scan p = Inr ((b, r, res), p')"
  shows "spec_elements ScanningForHeader (mp_offset p) (unread p)
          = (if b then (r, res, mp_offset p')
                  # spec_elements (InRun (nat (mp_remaining p')) res (r + 1))
                      (mp_offset p' + size_of res) (drop (size_of res) (unread p'))
             else [])
       \<and> (b \<longrightarrow> 0 \<le> mp_remaining p' \<and> mp_current_resolution p' = res
              \<and> mp_current_register p' = r + 1 \<and> res \<noteq> kIgnore)
       \<and> wf_parser p'"
  using assms
proof (induction p rule: scan.induct)
  case (1 p)
  note wf = "1.prems"(1) and res = "1.prems"(2)
  define rhs where "rhs = (if b then (r, res, mp_offset p')
                  # spec_elements (InRun (nat (mp_remaining p')) res (r + 1))
                      (mp_offset p' + size_of res) (drop (size_of res) (unread p'))
             else [])"
  define post where "post \<longleftrightarrow> (b \<longrightarrow> 0 \<le> mp_remaining p' \<and> mp_current_resolution p' = res
              \<and> mp_current_register p' = r + 1 \<and> res \<noteq> kIgnore) \<and> wf_parser p'"
  let ?o = "mp_offset p"
  let ?cmd = "mp_data p ! ?o"
  let ?c = "unat (drop_bit 2 ?cmd AND 0x03)"
  let ?r = "resolution_of_id ?c"
  let ?buf = "take (unat (mp_size p)) (mp_data p)"
  have sr: "spec_resolution ?c = ?r"
    by (rule spec_resolution_eq) (rule code_lt_4)
  have "spec_elements ScanningForHeader ?o (drop ?o ?buf) = rhs \<and> post"
  proof (cases "?o < unat (mp_size p)")
    case False
    with res wf show ?thesis by (auto simp: scan_done no_entry_def rhs_def post_def)
  next
    case lt: True
    with wf have inb: "?o < length (mp_data p)"
      by (simp add: wf_parser_def)
    let ?p1 = "p\<lparr>mp_offset := ?o + 1\<rparr>"
    have wf1: "wf_parser ?p1" using wf by (simp add: wf_parser_def)
    have u0: "drop ?o ?buf = ?cmd # drop (?o + 1) ?buf"
      by (rule unread_step [OF wf lt])
    show ?thesis
    proof (cases "?cmd = 0x50")
      case True
      from res have "scan ?p1 = Inr ((b, r, res), p')"
        by (simp add: scan_nop [OF lt inb True])
      from "1.IH"(1) [OF lt _ refl refl True wf1 this] inb
      have "spec_elements ScanningForHeader (?o + 1) (drop (?o + 1) ?buf) = rhs \<and> post"
        by (simp add: rhs_def post_def unread_def)
      then show ?thesis by (simp add: u0 True spec_scan_nop)
    next
      case nnop: False
      show ?thesis
      proof (cases "unat (mp_size p) \<le> ?o + 1")
        case True
        then have "drop (?o + 1) ?buf = []" by simp
        with res wf1 show ?thesis
          by (auto simp: scan_last_byte [OF lt inb nnop True] no_entry_def u0
              spec_scan_last [OF nnop] rhs_def post_def)
      next
        case False
        then have more: "?o + 1 < unat (mp_size p)" by simp
        with wf have inb2: "?o + 1 < length (mp_data p)" by (simp add: wf_parser_def)
        have u1: "drop (Suc ?o) ?buf = mp_data p ! Suc ?o # drop (Suc (Suc ?o)) ?buf"
          using unread_step [OF wf more] by simp
        show ?thesis
        proof (cases "0x20 \<le> ?cmd \<and> ?cmd < 0x30")
          case False
          from res more wf show ?thesis
            by (auto simp: scan_other [OF more inb nnop False] no_entry_def u0
                spec_scan_other [OF nnop False] wf_parser_def rhs_def post_def)
        next
          case True
          then have reply: "0x20 \<le> ?cmd" "?cmd < 0x30" by simp_all
          show ?thesis
          proof (cases "?cmd AND 0x03 = 0")
            case False
            let ?q = "p\<lparr>mp_offset := ?o + 1, mp_current_resolution := ?r\<rparr>"
            from res have br: "begin_run ?q (uint (?cmd AND 0x03)) = Inr ((b, r, res), p')"
              by (simp add: scan_short [OF more inb refl reply False])
            have wfq: "wf_parser ?q" using wf by (simp add: wf_parser_def)
            have ltq: "mp_offset ?q < unat (mp_size ?q)" using more by simp
            have c: "0 < uint (?cmd AND 0x03)"
              using False by (simp add: word_greater_zero_iff uint_0_iff less_le)
            have rq: "mp_current_resolution ?q \<noteq> kIgnore"
              by (simp add: resolution_of_id_not_ignore)
            from begin_run_spec [OF wfq ltq c rq br]
            have "spec_elements (InRun (unat (?cmd AND 0x03)) ?r (ucast (mp_data p ! (?o + 1))))
                     (?o + 2) (drop (?o + 2) ?buf) = rhs \<and> post"
              by (simp add: rhs_def post_def unread_def)
            then show ?thesis
              by (simp add: u0 u1 spec_scan_short [OF reply False] sr)
          next
            case long: True
            show ?thesis
            proof (cases "unat (mp_size p) \<le> ?o + 2")
              case True
              then have "drop (?o + 2) ?buf = []" by simp
              with res wf show ?thesis
                by (auto simp: scan_long_cut [OF more inb2 refl reply long True] no_entry_def
                    u0 u1 spec_scan_long_cut [OF reply long] wf_parser_def rhs_def post_def)
            next
              case False
              then have more2: "?o + 2 < unat (mp_size p)" by simp
              have u2: "drop (Suc (Suc ?o)) ?buf = mp_data p ! Suc (Suc ?o) # drop (Suc (Suc (Suc ?o))) ?buf"
                using unread_step [OF wf more2] by simp
              let ?p3 = "p\<lparr>mp_current_resolution := ?r, mp_offset := ?o + 2\<rparr>"
              have wf3: "wf_parser ?p3" using wf by (simp add: wf_parser_def)
              show ?thesis
              proof (cases "mp_data p ! (?o + 1) = 0")
                case True
                from res have s3: "scan ?p3 = Inr ((b, r, res), p')"
                  by (simp add: scan_long_empty [OF more2 inb2 refl reply long True])
                from "1.IH"(2) [OF lt _ refl refl nnop _ _ refl refl _ _ refl refl]
                  inb inb2 more more2 reply long True wf3 s3
                have "spec_elements ScanningForHeader (?o + 2) (drop (?o + 2) ?buf) = rhs \<and> post"
                  by (auto simp: uint_0_iff rhs_def post_def unread_def)
                then show ?thesis
                  using True by (simp add: u0 u1 spec_scan_long_empty [OF reply long])
              next
                case False
                from res have br: "begin_run ?p3 (uint (mp_data p ! (?o + 1))) = Inr ((b, r, res), p')"
                  by (simp add: scan_long [OF more2 inb2 refl reply long False])
                have lt3: "mp_offset ?p3 < unat (mp_size ?p3)" using more2 by simp
                have c: "0 < uint (mp_data p ! (?o + 1))"
                  using False by (simp add: word_greater_zero_iff uint_0_iff less_le)
                have r3: "mp_current_resolution ?p3 \<noteq> kIgnore"
                  by (simp add: resolution_of_id_not_ignore)
                from begin_run_spec [OF wf3 lt3 c r3 br]
                have "spec_elements (InRun (unat (mp_data p ! (?o + 1))) ?r (ucast (mp_data p ! (?o + 2))))
                     (?o + 3) (drop (Suc (Suc (Suc ?o))) ?buf) = rhs \<and> post"
                  by (simp add: rhs_def post_def unread_def eval_nat_numeral)
                then show ?thesis
                  using False by (simp add: u0 u1 u2 spec_scan_long [OF reply long] sr)
              qed
            qed
          qed
        qed
      qed
    qed
  qed
  then show ?case by (simp add: rhs_def post_def unread_def)
qed

lemma entries_unfold:
  "MultiplexParser_next p = Inr ((b, r, res), p') \<Longrightarrow>
   ParseQueryResult_entries p =
     (if \<not> b then Inr []
      else (case ParseQueryResult_entries (Ignore res p') of
              Inl e \<Rightarrow> Inl e
            | Inr es \<Rightarrow> Inr ((r, res, mp_offset p') # es)))"
  by (subst ParseQueryResult_entries.simps) simp

lemma unread_Ignore: "unread (Ignore res p) = drop (ResolutionSize res) (unread p)"
  by (simp add: Ignore_def unread_offset)

lemma spec_elements_empty:
  "n \<noteq> 0 \<longrightarrow> res \<noteq> kIgnore \<Longrightarrow> spec_elements (InRun n res reg) pos [] = []"
  by (cases res) (auto simp: spec_elements.simps)

lemma entries_spec:
  assumes "wf_parser p" "0 \<le> mp_remaining p"
    "mp_remaining p \<noteq> 0 \<longrightarrow> mp_current_resolution p \<noteq> kIgnore"
  shows "ParseQueryResult_entries p
           = Inr (spec_elements
                    (InRun (nat (mp_remaining p)) (mp_current_resolution p) (mp_current_register p))
                    (mp_offset p) (unread p))"
  using assms
proof (induction p rule: ParseQueryResult_entries.induct)
  case (1 p)
  note wf = "1.prems"(1) and rem = "1.prems"(2) and inv = "1.prems"(3)
  let ?res = "mp_current_resolution p"
  let ?reg = "mp_current_register p"
  show ?case
  proof (cases "unat (mp_size p) \<le> mp_offset p")
    case True
    have "ParseQueryResult_entries p = Inr []"
      using entries_unfold [of p False 0 kInt8 p] True
      by (simp add: next_exhausted no_entry_def)
    moreover have "spec_elements (InRun (nat (mp_remaining p)) ?res ?reg) (mp_offset p) (unread p) = []"
      using inv rem by (simp add: unread_empty [OF True] spec_elements_empty)
    ultimately show ?thesis by simp
  next
    case False
    then have lt: "mp_offset p < unat (mp_size p)" by simp
    have len: "length (unread p) = unat (mp_size p) - mp_offset p"
      by (rule length_unread [OF wf])
    show ?thesis
    proof (cases "mp_remaining p = 0")
      case idle: True
      from scan_ok [OF wf] obtain b r res p' where s: "scan p = Inr ((b, r, res), p')"
        by (cases "scan p") auto
      then have n: "MultiplexParser_next p = Inr ((b, r, res), p')"
        using lt idle by (simp add: next_scan)
      note sp = scan_spec [OF wf s]
      show ?thesis
      proof (cases b)
        case False
        with sp entries_unfold [OF n] idle show ?thesis by simp
      next
        case True
        with sp have p': "0 \<le> mp_remaining p'" "mp_current_resolution p' = res"
          "mp_current_register p' = r + 1" "res \<noteq> kIgnore" "wf_parser p'"
          by simp_all
        have wfi: "wf_parser (Ignore res p')" using p'(5) by (simp add: wf_parser_def Ignore_def)
        from "1.IH" [OF n refl refl refl _ wfi] True p'
        have "ParseQueryResult_entries (Ignore res p')
           = Inr (spec_elements (InRun (nat (mp_remaining p')) res (r + 1))
                    (mp_offset p' + ResolutionSize res) (drop (ResolutionSize res) (unread p')))"
          by (simp add: unread_Ignore) (simp add: Ignore_def)
        with sp True entries_unfold [OF n] idle p'(4) show ?thesis
          by (simp add: size_of_ResolutionSize)
      qed
    next
      case run: False
      with inv have r: "?res \<noteq> kIgnore" by simp
      then have sz: "size_of ?res = ResolutionSize ?res" by (rule size_of_ResolutionSize)
      from run rem have pos: "0 < nat (mp_remaining p)" by simp
      let ?p2 = "p\<lparr>mp_remaining := mp_remaining p - 1, mp_current_register := ?reg + 1\<rparr>"
      show ?thesis
      proof (cases "mp_offset p + ResolutionSize ?res > unat (mp_size p)")
        case True
        then have n: "MultiplexParser_next p = Inr ((False, 0, kInt8), ?p2)"
          using lt run by (simp add: MultiplexParser_next_def Let_def no_entry_def)
        have "spec_elements (InRun (nat (mp_remaining p)) ?res ?reg) (mp_offset p) (unread p) = []"
          using pos True len sz lt by (intro spec_elements_short) (simp, arith)
        with entries_unfold [OF n] show ?thesis by simp
      next
        case False
        then have n: "MultiplexParser_next p = Inr ((True, ?reg, ?res), ?p2)"
          using lt run by (simp add: MultiplexParser_next_def Let_def no_entry_def)
        have wfi: "wf_parser (Ignore ?res ?p2)" using wf by (simp add: wf_parser_def Ignore_def)
        from "1.IH" [OF n refl refl refl _ wfi] rem run r
        have "ParseQueryResult_entries (Ignore ?res ?p2)
           = Inr (spec_elements (InRun (nat (mp_remaining p - 1)) ?res (?reg + 1))
                    (mp_offset p + ResolutionSize ?res) (drop (ResolutionSize ?res) (unread p)))"
          by (simp add: unread_Ignore) (simp add: Ignore_def)
        moreover have "spec_elements (InRun (nat (mp_remaining p)) ?res ?reg) (mp_offset p) (unread p)
          = (?reg, ?res, mp_offset p)
              # spec_elements (InRun (nat (mp_remaining p) - 1) ?res (?reg + 1))
                  (mp_offset p + size_of ?res) (drop (size_of ?res) (unread p))"
          using pos False len sz by (intro spec_elements_yield) simp_all
        moreover have "nat (mp_remaining p) - 1 = nat (mp_remaining p - 1)" by simp
        ultimately show ?thesis
          using entries_unfold [OF n] by (simp add: sz)
      qed
    qed
  qed
qed

lemma spec_elements_InRun:
  "spec_elements (InRun n res reg) pos bs =
     (if n = 0 then spec_elements ScanningForHeader pos bs
      else if length bs < size_of res then []
      else (reg, res, pos) # spec_elements (InRun (n - 1) res (reg + 1)) (pos + size_of res)
                               (drop (size_of res) bs))"
  by (simp add: spec_elements.simps)

lemma spec_elements_Cons:
  "spec_elements ScanningForHeader pos (cmd # bs) =
     (if cmd = 0x50 then spec_elements ScanningForHeader (pos + 1) bs
      else if 0x20 \<le> cmd \<and> cmd < 0x30 then
        (if unat (cmd AND 0x03) \<noteq> 0 then
           (case bs of
              [] \<Rightarrow> []
            | reg # bs' \<Rightarrow>
                spec_elements (InRun (unat (cmd AND 0x03))
                   (spec_resolution (unat (drop_bit 2 cmd AND 0x03))) (ucast reg)) (pos + 2) bs')
         else
           (case bs of
              [] \<Rightarrow> []
            | explicit_count # bs' \<Rightarrow>
                if explicit_count = 0 then spec_elements ScanningForHeader (pos + 2) bs'
                else
                  (case bs' of
                     [] \<Rightarrow> []
                   | reg # bs'' \<Rightarrow>
                       spec_elements (InRun (unat explicit_count)
                          (spec_resolution (unat (drop_bit 2 cmd AND 0x03))) (ucast reg))
                          (pos + 3) bs'')))
      else [])"
  by (simp add: spec_elements.simps Let_def)

lemma spec_offsets:
  "(r, res, off) \<in> set (spec_elements st pos bs) \<Longrightarrow> pos \<le> off"
proof (induction st pos bs rule: spec_elements.induct)
  case (1 remaining res' reg pos bs)
  from "1.prems" "1.IH" show ?case
    by (subst (asm) spec_elements_InRun) (auto split: if_splits)
next
  case (2 pos)
  then show ?case by simp
next
  case (3 pos cmd bs)
  from "3.prems" show ?case
    apply (subst (asm) spec_elements_Cons)
    apply (simp split: if_splits list.splits)
    using "3.IH" apply (fastforce simp: unat_eq_0)+
    done
qed

lemma takeWhile_none: "(\<And>x. x \<in> set xs \<Longrightarrow> \<not> P x) \<Longrightarrow> takeWhile P xs = []"
  by (cases xs) auto

lemma spec_cut:
  "k < pos \<Longrightarrow>
   takeWhile (\<lambda>(r, res, off). off + size_of res \<le> k) (spec_elements st pos bs) = []"
  by (rule takeWhile_none) (auto dest: spec_offsets)

lemma spec_truncate:
  "spec_elements st pos (take m bs)
     = takeWhile (\<lambda>(r, res, off). off + size_of res \<le> pos + m) (spec_elements st pos bs)"
proof (induction st pos bs arbitrary: m rule: spec_elements.induct)
  case (1 remaining res reg pos bs)
  show ?case
  proof (cases "remaining = 0")
    case True
    with "1.IH"(1) show ?thesis by simp
  next
    case False
    show ?thesis
    proof (cases "length bs < size_of res")
      case True
      with False show ?thesis by (simp add: spec_elements_InRun)
    next
      case fits: False
      show ?thesis
      proof (cases "m < size_of res")
        case True
        with False fits show ?thesis by (simp add: spec_elements_InRun)
      next
        case large: False
        have d: "drop (size_of res) (take m bs) = take (m - size_of res) (drop (size_of res) bs)"
          by (simp add: drop_take)
        from "1.IH"(2) [OF False fits, of "m - size_of res"] large
        have "spec_elements (InRun (remaining - 1) res (reg + 1)) (pos + size_of res)
                (take (m - size_of res) (drop (size_of res) bs))
            = takeWhile (\<lambda>(r, res, off). off + size_of res \<le> pos + m)
                (spec_elements (InRun (remaining - 1) res (reg + 1)) (pos + size_of res)
                   (drop (size_of res) bs))"
          by simp
        with False fits large show ?thesis
          by (simp add: spec_elements_InRun [of remaining] d)
      qed
    qed
  qed
next
  case (2 pos)
  show ?case by simp
next
  case (3 pos cmd bs)
  let ?P = "\<lambda>k. (\<lambda>(r, res, off). off + size_of res \<le> k) :: 32 word \<times> Resolution \<times> nat \<Rightarrow> bool"
  let ?res = "spec_resolution (unat (drop_bit 2 cmd AND 0x03))"
  show ?case
  proof (cases m)
    case 0
    have "takeWhile (?P pos) (spec_elements ScanningForHeader pos (cmd # bs)) = []"
      by (simp add: spec_elements_Cons spec_cut split: list.splits)
    with 0 show ?thesis by simp
  next
    case m: (Suc m')
    show ?thesis
    proof (cases "cmd = 0x50")
      case True
      from "3.IH"(1) [OF True, of m'] show ?thesis
        by (simp add: m True spec_scan_nop)
    next
      case nnop: False
      show ?thesis
      proof (cases "0x20 \<le> cmd \<and> cmd < 0x30")
        case False
        then show ?thesis by (simp add: m spec_scan_other [OF nnop False])
      next
        case True
        then have reply: "0x20 \<le> cmd" "cmd < 0x30" by simp_all
        show ?thesis
        proof (cases bs)
          case Nil
          then show ?thesis by (simp add: m spec_scan_last [OF nnop])
        next
          case bs: (Cons b1 bs1)
          show ?thesis
          proof (cases "cmd AND 0x03 = 0")
            case short: False
            then have c: "unat (cmd AND 0x03) \<noteq> 0" by (simp add: unat_eq_0)
            show ?thesis
            proof (cases m')
              case 0
              then show ?thesis
                by (simp add: m bs spec_scan_last [OF nnop] spec_scan_short [OF reply short] spec_cut)
            next
              case (Suc m'')
              from "3.IH"(2) [OF nnop True refl refl c bs, of m'']
              show ?thesis
                by (simp add: m bs Suc spec_scan_short [OF reply short])
            qed
          next
            case long: True
            then have c: "\<not> unat (cmd AND 0x03) \<noteq> 0" by simp
            show ?thesis
            proof (cases m')
              case 0
              then show ?thesis
                by (simp add: m bs spec_scan_last [OF nnop] spec_elements_Cons [of pos cmd] nnop reply
                    long spec_cut split: list.splits)
            next
              case m': (Suc m'')
              show ?thesis
              proof (cases "b1 = 0")
                case True
                from "3.IH"(3) [OF nnop \<open>0x20 \<le> cmd \<and> cmd < 0x30\<close> refl refl c bs True, of m'']
                show ?thesis
                  by (simp add: m bs m' True spec_scan_long_empty [OF reply long])
              next
                case count: False
                show ?thesis
                proof (cases bs1)
                  case Nil
                  then show ?thesis
                    by (simp add: m bs m' spec_scan_long_cut [OF reply long])
                next
                  case bs1: (Cons b2 bs2)
                  show ?thesis
                  proof (cases m'')
                    case 0
                    then show ?thesis
                      by (simp add: m bs m' bs1 spec_scan_long_cut [OF reply long]
                          spec_scan_long [OF reply long count] spec_cut)
                  next
                    case (Suc m3)
                    from "3.IH"(4) [OF nnop \<open>0x20 \<le> cmd \<and> cmd < 0x30\<close> refl refl c bs count bs1, of m3]
                    show ?thesis
                      by (simp add: m bs m' bs1 Suc spec_scan_long [OF reply long count] numeral_3_eq_3)
                  qed
                qed
              qed
            qed
          qed
        qed
      qed
    qed
  qed
qed

lemma scan_stop:
  "scan q = Inr ((False, r, res), q') \<Longrightarrow>
   unat (mp_size q') \<le> mp_offset q'
   \<or> unat (mp_size q') < mp_offset q' + ResolutionSize (mp_current_resolution q')"
proof (induction q rule: scan.induct)
  case (1 q)
  show ?case
    using "1.prems" "1.IH"
    apply (subst (asm) scan.simps)
    apply (simp add: Let_def begin_run_def no_entry_def split: if_splits)
    apply auto
    done
qed

lemma next_stop:
  assumes "MultiplexParser_next p = Inr ((False, r, res), p')"
  shows "unat (mp_size p') \<le> mp_offset p'
   \<or> unat (mp_size p') < mp_offset p' + ResolutionSize (mp_current_resolution p')"
proof (cases "mp_offset p < unat (mp_size p) \<and> mp_remaining p = 0")
  case True
  with assms have "scan p = Inr ((False, r, res), p')" by (simp add: next_scan)
  then show ?thesis by (rule scan_stop)
next
  case False
  with assms show ?thesis
    by (auto simp: MultiplexParser_next_def Let_def no_entry_def split: if_splits)
qed

lemma spec_resolution_not_ignore: "spec_resolution c \<noteq> kIgnore"
  by (simp add: spec_resolution_def)

lemma spec_elements_res:
  "(r, res, off) \<in> set (spec_elements st pos bs)
   \<Longrightarrow> (case st of ScanningForHeader \<Rightarrow> True | InRun n res' reg \<Rightarrow> n \<noteq> 0 \<longrightarrow> res' \<noteq> kIgnore)
   \<Longrightarrow> res \<noteq> kIgnore"
proof (induction st pos bs rule: spec_elements.induct)
  case (1 remaining res' reg pos bs)
  from "1.prems" "1.IH" show ?case
    by (subst (asm) spec_elements_InRun) (auto split: if_splits)
next
  case (2 pos)
  then show ?case by simp
next
  case (3 pos cmd bs)
  from "3.prems" show ?case
    apply (subst (asm) spec_elements_Cons)
    apply (simp split: if_splits list.splits)
    using "3.IH" apply (fastforce simp: unat_eq_0 spec_resolution_not_ignore)+
    done
qed

lemma unread_resize:
  assumes "m \<le> mp_size p"
  shows "unread (p\<lparr>mp_size := m\<rparr>) = take (unat m - mp_offset p) (unread p)"
proof -
  from assms have le: "unat m \<le> unat (mp_size p)" by (simp add: word_le_nat_alt)
  then have "take (unat m) (mp_data p) = take (unat m) (take (unat (mp_size p)) (mp_data p))"
    by (simp add: min_def)
  then have "unread (p\<lparr>mp_size := m\<rparr>)
               = drop (mp_offset p) (take (unat m) (take (unat (mp_size p)) (mp_data p)))"
    by (simp add: unread_def)
  also have "\<dots> = take (unat m - mp_offset p) (unread p)"
    unfolding unread_def by (rule drop_take)
  finally show ?thesis .
qed

lemma entries_truncate:
  assumes wf: "wf_parser p" and idle: "mp_remaining p = 0"
    and m: "mp_offset p \<le> unat m" "m \<le> mp_size p"
    and es: "ParseQueryResult_entries p = Inr es"
  shows "ParseQueryResult_entries (p\<lparr>mp_size := m\<rparr>)
           = Inr (takeWhile (\<lambda>(r, res, off). off + ResolutionSize res \<le> unat m) es)"
proof -
  let ?q = "p\<lparr>mp_size := m\<rparr>"
  from m(2) have le: "unat m \<le> unat (mp_size p)" by (simp add: word_le_nat_alt)
  with wf have wfq: "wf_parser ?q" by (simp add: wf_parser_def)
  from entries_spec [OF wf] idle es
  have e: "es = spec_elements ScanningForHeader (mp_offset p) (unread p)" by simp
  have "ParseQueryResult_entries ?q
          = Inr (spec_elements ScanningForHeader (mp_offset p) (take (unat m - mp_offset p) (unread p)))"
    using entries_spec [OF wfq] idle by (simp add: unread_resize [OF m(2)])
  also have "spec_elements ScanningForHeader (mp_offset p) (take (unat m - mp_offset p) (unread p))
          = takeWhile (\<lambda>(r, res, off). off + size_of res \<le> unat m) es"
    using m(1) by (simp add: spec_truncate e)
  also have "\<dots> = takeWhile (\<lambda>(r, res, off). off + ResolutionSize res \<le> unat m) es"
  proof (rule takeWhile_cong [OF refl])
    fix x assume "x \<in> set es"
    then obtain r res off where x: "x = (r, res, off)" "(r, res, off) \<in> set es"
      by (metis prod_cases3)
    from spec_elements_res [OF x(2) [unfolded e]] have "res \<noteq> kIgnore" by simp
    then show "(case x of (r, res, off) \<Rightarrow> off + size_of res \<le> unat m)
             = (case x of (r, res, off) \<Rightarrow> off + ResolutionSize res \<le> unat m)"
      by (simp add: x(1) size_of_ResolutionSize)
  qed
  finally show ?thesis .
qed

lemma ReadMapped_returns:
  assumes "wf_parser p" "res \<noteq> kIgnore"
    "mp_offset p + ResolutionSize res \<le> unat (mp_size p)"
  shows "\<exists>d. ReadMapped res s8 s16 s32 p = (Returned d, Ignore res p)"
  using assms
  by (cases res)
     (simp_all add: ReadMapped_def Read_int_def Read_def Ignore_def wf_parser_def)

lemma ReadMapped_cursor:
  "ReadMapped res s8 s16 s32 p = (Returned d, p') \<Longrightarrow> p' = Ignore res p"
  by (cases res)
     (auto simp: ReadMapped_def Read_int_def Read_def Ignore_def
           split: prod.splits outcome.splits if_splits)

text \<open>
  C5. For a parser whose length does not exceed its array, \<open>next\<close> always returns (no
  exception, and no read outside the array), and what it returns is either an entry
  whose value, \<open>ResolutionSize\<close> bytes at the cursor, lies inside the buffer, or the tuple
  \<open>(false, 0, kInt8)\<close>. It returns the latter whenever bytes are missing: inside a run
  when the next value does not fit, and, when scanning has come to a reply opcode, when
  nothing follows the opcode, when the count byte of the long form or what follows it is
  missing, or when the register byte or the first value does not fit. Inside a run whose
  next value fits it returns the entry of the current register and resolution. After a
  return of \<open>(false, 0, kInt8)\<close> either the cursor is at the end of the buffer, and every
  later call returns the same, or fewer bytes are left than a value of the current
  resolution takes.

  The entries that the loop of \<open>ParseQueryResult\<close> goes through, calling \<open>next\<close> until it
  returns \<open>(false, 0, kInt8)\<close> and moving the cursor over each value, are the elements
  that the state machine of the specification assigns to the unread bytes: the same
  registers, resolutions and positions, in the same order, and the loop ends without an
  error. If the buffer is cut to a shorter length, the loop goes through exactly those
  entries of the uncut buffer, a prefix of them, whose value ends within that length.
\<close>

theorem next_truncation_silent:
  assumes wf: "wf_parser p"
  shows "(\<exists>e p'. MultiplexParser_next p = Inr (e, p'))
       \<and> (\<forall>b r res p'. MultiplexParser_next p = Inr ((b, r, res), p') \<longrightarrow>
            mp_data p' = mp_data p \<and> mp_size p' = mp_size p
            \<and> (b \<longrightarrow> mp_offset p' + ResolutionSize res \<le> unat (mp_size p))
            \<and> (\<not> b \<longrightarrow> (b, r, res) = no_entry
                 \<and> (unat (mp_size p) \<le> mp_offset p' \<and> (\<forall>n. nth_next n p' = Inr (no_entry, p'))
                    \<or> unat (mp_size p) < mp_offset p' + ResolutionSize (mp_current_resolution p'))))
       \<and> (mp_offset p < unat (mp_size p) \<and> mp_remaining p \<noteq> 0
            \<and> unat (mp_size p) < mp_offset p + ResolutionSize (mp_current_resolution p)
          \<longrightarrow> (\<exists>p'. MultiplexParser_next p = Inr (no_entry, p')))
       \<and> (mp_offset p < unat (mp_size p) \<and> mp_remaining p \<noteq> 0
            \<and> mp_offset p + ResolutionSize (mp_current_resolution p) \<le> unat (mp_size p)
          \<longrightarrow> MultiplexParser_next p
                = Inr ((True, mp_current_register p, mp_current_resolution p),
                       p\<lparr>mp_remaining := mp_remaining p - 1,
                         mp_current_register := mp_current_register p + 1\<rparr>))
       \<and> (\<forall>q cmd. mp_remaining p = 0 \<and> scanning p q \<and> mp_offset q < unat (mp_size q)
            \<and> cmd = mp_data q ! mp_offset q \<and> 0x20 \<le> cmd \<and> cmd < 0x30
            \<and> (unat (mp_size q) \<le> mp_offset q + 1
               \<or> cmd AND 0x03 = 0 \<and> unat (mp_size q) \<le> mp_offset q + 2
               \<or> cmd AND 0x03 \<noteq> 0
                   \<and> unat (mp_size q) < mp_offset q + 2
                        + ResolutionSize (resolution_of_id (unat (drop_bit 2 cmd AND 0x03)))
               \<or> cmd AND 0x03 = 0 \<and> mp_data q ! (mp_offset q + 1) \<noteq> 0
                   \<and> unat (mp_size q) < mp_offset q + 3
                        + ResolutionSize (resolution_of_id (unat (drop_bit 2 cmd AND 0x03))))
          \<longrightarrow> (\<exists>p'. MultiplexParser_next p = Inr (no_entry, p')))
       \<and> (mp_remaining p = 0 \<longrightarrow>
            ParseQueryResult_entries p
              = Inr (spec_elements ScanningForHeader (mp_offset p) (unread p)))
       \<and> (0 < mp_remaining p \<and> mp_current_resolution p \<noteq> kIgnore \<longrightarrow>
            ParseQueryResult_entries p
              = Inr (spec_elements
                       (InRun (nat (mp_remaining p)) (mp_current_resolution p) (mp_current_register p))
                       (mp_offset p) (unread p)))
       \<and> (\<forall>m es. mp_remaining p = 0 \<and> mp_offset p \<le> unat m \<and> m \<le> mp_size p
                 \<and> ParseQueryResult_entries p = Inr es \<longrightarrow>
            ParseQueryResult_entries (p\<lparr>mp_size := m\<rparr>)
              = Inr (takeWhile (\<lambda>(r, res, off). off + ResolutionSize res \<le> unat m) es))"
    (is "?A \<and> ?B \<and> ?C \<and> ?C' \<and> ?D \<and> ?E \<and> ?F \<and> ?G")
proof -
  have a: ?A
    using next_ok [OF wf] by (cases "MultiplexParser_next p") auto
  have b: ?B
  proof (intro allI impI)
    fix b r res p'
    assume n: "MultiplexParser_next p = Inr ((b, r, res), p')"
    note nr = next_result [OF wf n]
    have "unat (mp_size p) \<le> mp_offset p' \<and> (\<forall>n. nth_next n p' = Inr (no_entry, p'))
           \<or> unat (mp_size p) < mp_offset p' + ResolutionSize (mp_current_resolution p')"
      if "\<not> b"
    proof -
      from that n have "MultiplexParser_next p = Inr ((False, r, res), p')" by simp
      from next_stop [OF this] nr show ?thesis
        by (auto simp: nth_next_exhausted)
    qed
    with nr
    show "mp_data p' = mp_data p \<and> mp_size p' = mp_size p
        \<and> (b \<longrightarrow> mp_offset p' + ResolutionSize res \<le> unat (mp_size p))
        \<and> (\<not> b \<longrightarrow> (b, r, res) = no_entry
             \<and> (unat (mp_size p) \<le> mp_offset p' \<and> (\<forall>n. nth_next n p' = Inr (no_entry, p'))
                \<or> unat (mp_size p) < mp_offset p' + ResolutionSize (mp_current_resolution p')))"
      by auto
  qed
  have c: ?C
    by (simp add: MultiplexParser_next_def Let_def)
  have c': ?C'
    by (simp add: MultiplexParser_next_def Let_def)
  have d: ?D
  proof (intro allI impI)
    fix q cmd
    assume h: "mp_remaining p = 0 \<and> scanning p q \<and> mp_offset q < unat (mp_size q)
            \<and> cmd = mp_data q ! mp_offset q \<and> 0x20 \<le> cmd \<and> cmd < 0x30
            \<and> (unat (mp_size q) \<le> mp_offset q + 1
               \<or> cmd AND 0x03 = 0 \<and> unat (mp_size q) \<le> mp_offset q + 2
               \<or> cmd AND 0x03 \<noteq> 0
                   \<and> unat (mp_size q) < mp_offset q + 2
                        + ResolutionSize (resolution_of_id (unat (drop_bit 2 cmd AND 0x03)))
               \<or> cmd AND 0x03 = 0 \<and> mp_data q ! (mp_offset q + 1) \<noteq> 0
                   \<and> unat (mp_size q) < mp_offset q + 3
                        + ResolutionSize (resolution_of_id (unat (drop_bit 2 cmd AND 0x03))))"
    then have sc: "scanning p q" by simp
    from scanning_fields [OF sc] wf have wfq: "wf_parser q" and lt: "mp_offset p < unat (mp_size p)"
      using h by (auto simp: wf_parser_def)
    from h have "\<exists>p'. scan q = Inr (no_entry, p')"
      by (intro scan_header_cut [OF wfq, of cmd]) auto
    then show "\<exists>p'. MultiplexParser_next p = Inr (no_entry, p')"
      using h lt by (simp add: next_scan scanning_scan [OF sc])
  qed
  have e: ?E
    using entries_spec [OF wf] by simp
  have f: ?F
    using entries_spec [OF wf] by simp
  have g: ?G
    using entries_truncate [OF wf] by blast
  from a b c c' d e f g show ?thesis by (intro conjI)
qed

theorem next_truncation_silent_witness:
  "wf_parser (MultiplexParser_new
      [0x50, 0x29, 0x01, 0xAA, 0xBB, 0xCC, 0xDD, 0x24, 0x02, 0x05, 0x10, 0x00, 0x20] 13)
   \<and> ParseQueryResult_entries (MultiplexParser_new
         [0x50, 0x29, 0x01, 0xAA, 0xBB, 0xCC, 0xDD, 0x24, 0x02, 0x05, 0x10, 0x00, 0x20] 13)
       = Inr [(1, kInt32, 3), (5, kInt16, 10)]
   \<and> ParseQueryResult_entries (MultiplexParser_new
         [0x50, 0x29, 0x01, 0xAA, 0xBB, 0xCC, 0xDD, 0x24, 0x02, 0x05, 0x10, 0x00, 0x20] 11)
       = Inr [(1, kInt32, 3)]
   \<and> MultiplexParser_next
        (MultiplexParser_new [0x24, 0x03, 0x01, 0x10, 0x00, 0x20, 0x00, 0x30] 8)
      = Inr ((True, 1, kInt16),
          \<lparr>mp_data = [0x24, 0x03, 0x01, 0x10, 0x00, 0x20, 0x00, 0x30], mp_size = 8,
           mp_offset = 3, mp_remaining = 2, mp_current_resolution = kInt16,
           mp_current_register = 2\<rparr>)
   \<and> MultiplexParser_next (Ignore kInt16
          \<lparr>mp_data = [0x24, 0x03, 0x01, 0x10, 0x00, 0x20, 0x00, 0x30], mp_size = 8,
           mp_offset = 3, mp_remaining = 2, mp_current_resolution = kInt16,
           mp_current_register = 2\<rparr>)
      = Inr ((True, 2, kInt16),
          \<lparr>mp_data = [0x24, 0x03, 0x01, 0x10, 0x00, 0x20, 0x00, 0x30], mp_size = 8,
           mp_offset = 5, mp_remaining = 1, mp_current_resolution = kInt16,
           mp_current_register = 3\<rparr>)
   \<and> (\<exists>p'. MultiplexParser_next (Ignore kInt16
          \<lparr>mp_data = [0x24, 0x03, 0x01, 0x10, 0x00, 0x20, 0x00, 0x30], mp_size = 8,
           mp_offset = 5, mp_remaining = 1, mp_current_resolution = kInt16,
           mp_current_register = 3\<rparr>) = Inr (no_entry, p'))
   \<and> (\<exists>p'. MultiplexParser_next (MultiplexParser_new [0x50, 0x25, 0x01, 0xAA] 4)
          = Inr (no_entry, p'))"
proof -
  let ?buf = "[0x24, 0x03, 0x01, 0x10, 0x00, 0x20, 0x00, 0x30] :: byte list"
  let ?buf2 = "[0x50, 0x29, 0x01, 0xAA, 0xBB, 0xCC, 0xDD, 0x24, 0x02, 0x05, 0x10, 0x00, 0x20] :: byte list"
  let ?n = "MultiplexParser_new ?buf2 13"
  let ?p = "\<lparr>mp_data = ?buf, mp_size = 8, mp_offset = 7, mp_remaining = 1,
             mp_current_resolution = kInt16, mp_current_register = 3\<rparr>"
  have wfn: "wf_parser ?n"
    by (simp add: wf_parser_def MultiplexParser_new_def)
  have idle: "mp_remaining ?n = 0" "mp_offset ?n = 0" "unread ?n = ?buf2"
    by (simp_all add: MultiplexParser_new_def unread_def)
  have sp: "spec_elements ScanningForHeader 0 ?buf2 = [(1, kInt32, 3), (5, kInt16, 10)]"
    by (simp add: spec_elements.simps Let_def spec_resolution_def)
  from next_truncation_silent [OF wfn] idle
  have a: "ParseQueryResult_entries ?n = Inr [(1, kInt32, 3), (5, kInt16, 10)]"
    by (simp add: sp)
  have r: "?n\<lparr>mp_size := 11\<rparr> = MultiplexParser_new ?buf2 11"
    by (simp add: MultiplexParser_new_def)
  from next_truncation_silent [OF wfn] idle a
  have "ParseQueryResult_entries (?n\<lparr>mp_size := 11\<rparr>)
          = Inr (takeWhile (\<lambda>(r, res, off). off + ResolutionSize res \<le> unat (11 :: 8 word))
                   [(1, kInt32, 3), (5, kInt16, 10)])"
    by (elim conjE allE [of _ "11 :: 8 word"] allE [of _ "[(1, kInt32, 3), (5, kInt16, 10)]"])
       (simp add: MultiplexParser_new_def)
  then have b: "ParseQueryResult_entries (MultiplexParser_new ?buf2 11) = Inr [(1, kInt32, 3)]"
    by (simp add: r)
  have wf: "wf_parser ?p"
    by (simp add: wf_parser_def)
  have 1: "MultiplexParser_next (MultiplexParser_new ?buf 8)
      = Inr ((True, 1, kInt16),
          \<lparr>mp_data = ?buf, mp_size = 8, mp_offset = 3, mp_remaining = 2,
           mp_current_resolution = kInt16, mp_current_register = 2\<rparr>)"
    by (simp add: MultiplexParser_next_def MultiplexParser_new_def scan.simps begin_run_def
        Let_def resolution_of_id_def)
  have 2: "MultiplexParser_next (Ignore kInt16
          \<lparr>mp_data = ?buf, mp_size = 8, mp_offset = 3, mp_remaining = 2,
           mp_current_resolution = kInt16, mp_current_register = 2\<rparr>)
      = Inr ((True, 2, kInt16),
          \<lparr>mp_data = ?buf, mp_size = 8, mp_offset = 5, mp_remaining = 1,
           mp_current_resolution = kInt16, mp_current_register = 3\<rparr>)"
    by (simp add: MultiplexParser_next_def Ignore_def Let_def)
  have i: "Ignore kInt16 \<lparr>mp_data = ?buf, mp_size = 8, mp_offset = 5, mp_remaining = 1,
           mp_current_resolution = kInt16, mp_current_register = 3\<rparr> = ?p"
    by (simp add: Ignore_def)
  from next_truncation_silent [OF wf]
  have 3: "\<exists>p'. MultiplexParser_next ?p = Inr (no_entry, p')"
    by simp
  let ?q = "MultiplexParser_new [0x50, 0x25, 0x01, 0xAA] 4"
  have wfq: "wf_parser ?q"
    by (simp add: wf_parser_def MultiplexParser_new_def)
  have sc: "scanning ?q (?q\<lparr>mp_offset := mp_offset ?q + 1\<rparr>)"
    by (rule scanning.nop) (simp_all add: MultiplexParser_new_def scanning.here)
  from next_truncation_silent [OF wfq] sc
  have 4: "\<exists>p'. MultiplexParser_next ?q = Inr (no_entry, p')"
    by (elim conjE allE [of _ "?q\<lparr>mp_offset := mp_offset ?q + 1\<rparr>"] allE [of _ "0x25"])
       (simp add: MultiplexParser_new_def resolution_of_id_def)
  from wfn a b 1 2 3 4 show ?thesis
    unfolding i by (intro conjI)
qed

text \<open>
  The end of the sequence is the first \<open>(false, 0, kInt8)\<close>, where the loop of
  \<open>ParseQueryResult\<close> stops. When that return leaves bytes of a cut value before the end of
  the buffer, a further call of \<open>next\<close> would scan them as commands: \<open>2A 01\<close> announces two
  int32 values from register 1, the second of which is cut after \<open>21 05 07\<close>; the second
  call returns \<open>(false, 0, kInt8)\<close> and a third one would read \<open>21 05\<close> as a header.
\<close>

lemma next_after_truncation_example:
  "MultiplexParser_next (MultiplexParser_new [0x2A, 0x01, 0xAA, 0xBB, 0xCC, 0xDD, 0x21, 0x05, 0x07] 9)
     = Inr ((True, 1, kInt32),
         \<lparr>mp_data = [0x2A, 0x01, 0xAA, 0xBB, 0xCC, 0xDD, 0x21, 0x05, 0x07], mp_size = 9,
          mp_offset = 2, mp_remaining = 1, mp_current_resolution = kInt32,
          mp_current_register = 2\<rparr>)
   \<and> MultiplexParser_next (Ignore kInt32
         \<lparr>mp_data = [0x2A, 0x01, 0xAA, 0xBB, 0xCC, 0xDD, 0x21, 0x05, 0x07], mp_size = 9,
          mp_offset = 2, mp_remaining = 1, mp_current_resolution = kInt32,
          mp_current_register = 2\<rparr>)
     = Inr (no_entry,
         \<lparr>mp_data = [0x2A, 0x01, 0xAA, 0xBB, 0xCC, 0xDD, 0x21, 0x05, 0x07], mp_size = 9,
          mp_offset = 6, mp_remaining = 0, mp_current_resolution = kInt32,
          mp_current_register = 3\<rparr>)
   \<and> MultiplexParser_next
         \<lparr>mp_data = [0x2A, 0x01, 0xAA, 0xBB, 0xCC, 0xDD, 0x21, 0x05, 0x07], mp_size = 9,
          mp_offset = 6, mp_remaining = 0, mp_current_resolution = kInt32,
          mp_current_register = 3\<rparr>
     = Inr ((True, 5, kInt8),
         \<lparr>mp_data = [0x2A, 0x01, 0xAA, 0xBB, 0xCC, 0xDD, 0x21, 0x05, 0x07], mp_size = 9,
          mp_offset = 8, mp_remaining = 0, mp_current_resolution = kInt8,
          mp_current_register = 6\<rparr>)
   \<and> ParseQueryResult_entries
         (MultiplexParser_new [0x2A, 0x01, 0xAA, 0xBB, 0xCC, 0xDD, 0x21, 0x05, 0x07] 9)
     = Inr [(1, kInt32, 2)]"
proof -
  let ?buf = "[0x2A, 0x01, 0xAA, 0xBB, 0xCC, 0xDD, 0x21, 0x05, 0x07] :: byte list"
  have 1: "MultiplexParser_next (MultiplexParser_new ?buf 9)
     = Inr ((True, 1, kInt32),
         \<lparr>mp_data = ?buf, mp_size = 9, mp_offset = 2, mp_remaining = 1,
          mp_current_resolution = kInt32, mp_current_register = 2\<rparr>)"
    by (simp add: MultiplexParser_next_def MultiplexParser_new_def scan.simps begin_run_def
        Let_def resolution_of_id_def)
  have 2: "MultiplexParser_next (Ignore kInt32
         \<lparr>mp_data = ?buf, mp_size = 9, mp_offset = 2, mp_remaining = 1,
          mp_current_resolution = kInt32, mp_current_register = 2\<rparr>)
     = Inr (no_entry,
         \<lparr>mp_data = ?buf, mp_size = 9, mp_offset = 6, mp_remaining = 0,
          mp_current_resolution = kInt32, mp_current_register = 3\<rparr>)"
    by (simp add: MultiplexParser_next_def Ignore_def Let_def)
  have 3: "MultiplexParser_next
         \<lparr>mp_data = ?buf, mp_size = 9, mp_offset = 6, mp_remaining = 0,
          mp_current_resolution = kInt32, mp_current_register = 3\<rparr>
     = Inr ((True, 5, kInt8),
         \<lparr>mp_data = ?buf, mp_size = 9, mp_offset = 8, mp_remaining = 0,
          mp_current_resolution = kInt8, mp_current_register = 6\<rparr>)"
    by (simp add: MultiplexParser_next_def scan.simps begin_run_def
        Let_def resolution_of_id_def)
  have 4: "ParseQueryResult_entries (MultiplexParser_new ?buf 9) = Inr [(1, kInt32, 2)]"
    by (simp add: entries_unfold [OF 1] entries_unfold [OF 2 [unfolded no_entry_def]])
  from 1 2 3 4 show ?thesis by (intro conjI)
qed

text \<open>
  C8. Let a call to \<open>next\<close> begin outside a run and let its scan, having skipped no-op bytes
  and empty reply headers, come to a byte inside the buffer that is neither the no-op
  filler nor a reply opcode. Then this call returns \<open>(false, 0, kInt8)\<close> with the cursor
  set to the end of the buffer, and so does every later call: the \<open>n\<close>-th one for every
  \<open>n\<close>, and a call in any state of the same length whose cursor is not smaller. The
  bytes after the offending opcode are never read.
\<close>

theorem bad_opcode_stops:
  assumes wf: "wf_parser p"
    and idle: "mp_remaining p = 0"
    and sc: "scanning p q"
    and lt: "mp_offset q < unat (mp_size q)"
    and bad: "mp_data q ! mp_offset q \<noteq> 0x50"
      "\<not> (0x20 \<le> mp_data q ! mp_offset q \<and> mp_data q ! mp_offset q < 0x30)"
  shows "\<exists>p'. MultiplexParser_next p = Inr (no_entry, p')
           \<and> mp_offset p' = unat (mp_size p) \<and> mp_size p' = mp_size p \<and> mp_data p' = mp_data p
           \<and> (\<forall>n. nth_next n p' = Inr (no_entry, p'))
           \<and> (\<forall>s. mp_size s = mp_size p \<and> mp_offset p' \<le> mp_offset s
                  \<longrightarrow> MultiplexParser_next s = Inr (no_entry, s))"
proof -
  from scanning_fields [OF sc] wf lt
  have wfq: "wf_parser q" and ltp: "mp_offset p < unat (mp_size p)"
    and eq: "mp_size q = mp_size p" "mp_data q = mp_data p"
    by (auto simp: wf_parser_def)
  let ?p' = "q\<lparr>mp_offset := unat (mp_size q)\<rparr>"
  have "MultiplexParser_next p = scan q"
    using ltp idle by (simp add: next_scan scanning_scan [OF sc])
  also have "\<dots> = Inr (no_entry, ?p')"
    by (rule scan_bad_opcode [OF wfq lt bad])
  finally have 1: "MultiplexParser_next p = Inr (no_entry, ?p')" .
  have 2: "\<forall>n. nth_next n ?p' = Inr (no_entry, ?p')"
    by (simp add: nth_next_exhausted)
  have 3: "\<forall>s. mp_size s = mp_size p \<and> mp_offset ?p' \<le> mp_offset s
                  \<longrightarrow> MultiplexParser_next s = Inr (no_entry, s)"
    using eq by (simp add: next_exhausted)
  from 1 2 3 eq show ?thesis by simp
qed

theorem bad_opcode_stops_witness:
  "\<exists>p'. MultiplexParser_next (MultiplexParser_new [0x50, 0x31, 0x21, 0x05, 0x07] 5)
            = Inr (no_entry, p')
        \<and> mp_offset p' = 5 \<and> (\<forall>n. nth_next n p' = Inr (no_entry, p'))"
proof -
  let ?p = "MultiplexParser_new [0x50, 0x31, 0x21, 0x05, 0x07] 5"
  have wf: "wf_parser ?p"
    by (simp add: wf_parser_def MultiplexParser_new_def)
  have idle: "mp_remaining ?p = 0"
    by (simp add: MultiplexParser_new_def)
  have sc: "scanning ?p (?p\<lparr>mp_offset := mp_offset ?p + 1\<rparr>)"
    by (rule scanning.nop) (simp_all add: MultiplexParser_new_def scanning.here)
  from bad_opcode_stops [OF wf idle sc] show ?thesis
    by (auto simp: MultiplexParser_new_def)
qed

section \<open>Floating-point arithmetic\<close>

lemma pow2_power_int: "pow2 k = power_int 2 k"
  by (simp add: pow2_def power_int_def power_inverse field_simps)

lemma pow2_pos: "0 < pow2 k"
  by (simp add: pow2_def)

lemma pow2_add: "pow2 (j + k) = pow2 j * pow2 k"
  by (simp add: pow2_power_int power_int_add)

lemma pow2_strict_mono: "j < k \<Longrightarrow> pow2 j < pow2 k"
  by (simp add: pow2_power_int power_int_strict_increasing)

lemma pow2_mono: "j \<le> k \<Longrightarrow> pow2 j \<le> pow2 k"
  by (simp add: pow2_power_int power_int_increasing)

lemma pow2_nat: "pow2 (int n) = 2 ^ n"
  by (simp add: pow2_def)

lemma pow2_neg: "pow2 (- k) = 1 / pow2 k"
  by (simp add: pow2_power_int power_int_minus field_simps)

lemma ilog2_bounds:
  assumes "0 < q"
  shows "pow2 (ilog2 q) \<le> q" and "q < pow2 (ilog2 q + 1)"
proof -
  show "pow2 (ilog2 q) \<le> q"
  proof (cases "1 \<le> q")
    case True
    then have f: "0 < \<lfloor>q\<rfloor>" by simp
    from bitlen_bounds [OF f] have "2 ^ nat (bitlen \<lfloor>q\<rfloor> - 1) \<le> \<lfloor>q\<rfloor>" by simp
    then have "(2::real) ^ nat (bitlen \<lfloor>q\<rfloor> - 1) \<le> of_int \<lfloor>q\<rfloor>"
      by (metis of_int_le_iff of_int_numeral of_int_power)
    also have "\<dots> \<le> q" by simp
    finally have "2 ^ nat (bitlen \<lfloor>q\<rfloor> - 1) \<le> q" .
    moreover have "0 \<le> bitlen \<lfloor>q\<rfloor> - 1"
      using f bitlen_eq_zero_iff [of "\<lfloor>q\<rfloor>"] bitlen_nonneg [of "\<lfloor>q\<rfloor>"] by linarith
    ultimately show ?thesis using True by (simp add: ilog2_def pow2_def)
  next
    case False
    then have q1: "q < 1" by simp
    let ?r = "1 / q"
    have r1: "1 < ?r" using assms q1 by simp
    then have c: "0 < \<lceil>?r\<rceil> - 1" by linarith
    from bitlen_bounds [OF c] have "\<lceil>?r\<rceil> - 1 < 2 ^ nat (bitlen (\<lceil>?r\<rceil> - 1))" by simp
    then have "\<lceil>?r\<rceil> \<le> 2 ^ nat (bitlen (\<lceil>?r\<rceil> - 1))" by simp
    then have "of_int \<lceil>?r\<rceil> \<le> (2::real) ^ nat (bitlen (\<lceil>?r\<rceil> - 1))"
      by (metis of_int_le_iff of_int_numeral of_int_power)
    then have "?r \<le> 2 ^ nat (bitlen (\<lceil>?r\<rceil> - 1))"
      using le_of_int_ceiling [of ?r] by linarith
    then have "1 / 2 ^ nat (bitlen (\<lceil>?r\<rceil> - 1)) \<le> q"
      using assms by (simp add: field_simps)
    moreover have "0 \<le> bitlen (\<lceil>?r\<rceil> - 1)" by (rule bitlen_nonneg)
    ultimately show ?thesis using False
      by (auto simp: ilog2_def pow2_def)
  qed
  show "q < pow2 (ilog2 q + 1)"
  proof (cases "1 \<le> q")
    case True
    then have f: "0 < \<lfloor>q\<rfloor>" by simp
    from bitlen_bounds [OF f] have "\<lfloor>q\<rfloor> < 2 ^ nat (bitlen \<lfloor>q\<rfloor>)" by simp
    then have "\<lfloor>q\<rfloor> + 1 \<le> 2 ^ nat (bitlen \<lfloor>q\<rfloor>)" by simp
    then have "of_int (\<lfloor>q\<rfloor> + 1) \<le> (2::real) ^ nat (bitlen \<lfloor>q\<rfloor>)"
      by (metis of_int_le_iff of_int_numeral of_int_power)
    moreover have "q < of_int (\<lfloor>q\<rfloor> + 1)" by linarith
    ultimately have "q < 2 ^ nat (bitlen \<lfloor>q\<rfloor>)" by linarith
    moreover have "0 \<le> bitlen \<lfloor>q\<rfloor>" by (rule bitlen_nonneg)
    ultimately show ?thesis using True by (simp add: ilog2_def pow2_def)
  next
    case False
    then have q1: "q < 1" by simp
    let ?r = "1 / q"
    let ?j = "bitlen (\<lceil>?r\<rceil> - 1)"
    have r1: "1 < ?r" using assms q1 by simp
    then have c: "0 < \<lceil>?r\<rceil> - 1" by linarith
    then have j1: "1 \<le> ?j"
      using bitlen_eq_zero_iff [of "\<lceil>?r\<rceil> - 1"] bitlen_nonneg [of "\<lceil>?r\<rceil> - 1"] by linarith
    from bitlen_bounds [OF c] have "2 ^ nat (?j - 1) \<le> \<lceil>?r\<rceil> - 1" by simp
    then have "(2::real) ^ nat (?j - 1) \<le> of_int (\<lceil>?r\<rceil> - 1)"
      by (metis of_int_le_iff of_int_numeral of_int_power)
    moreover have "of_int (\<lceil>?r\<rceil> - 1) < ?r" by linarith
    ultimately have "2 ^ nat (?j - 1) < ?r" by linarith
    then have "q < 1 / 2 ^ nat (?j - 1)"
      using assms by (simp add: field_simps)
    moreover have "pow2 (- ?j + 1) = 1 / 2 ^ nat (?j - 1)"
      using j1 by (cases "?j = 1") (simp_all add: pow2_def)
    ultimately show ?thesis using False by (simp add: ilog2_def)
  qed
qed

lemma ilog2_eqI:
  assumes "pow2 e \<le> q" "q < pow2 (e + 1)"
  shows "ilog2 q = e"
proof -
  have q: "0 < q" using assms(1) pow2_pos [of e] by linarith
  note b = ilog2_bounds [OF q]
  have "\<not> ilog2 q < e"
  proof
    assume "ilog2 q < e"
    then have "pow2 (ilog2 q + 1) \<le> pow2 e" by (intro pow2_mono) simp
    with b(2) assms(1) show False by linarith
  qed
  moreover have "\<not> e < ilog2 q"
  proof
    assume "e < ilog2 q"
    then have "pow2 (e + 1) \<le> pow2 (ilog2 q)" by (intro pow2_mono) simp
    with b(1) assms(2) show False by linarith
  qed
  ultimately show ?thesis by linarith
qed

lemma round_half_even_eqI:
  assumes "\<bar>x - of_int n\<bar> < 1 / 2"
  shows "round_half_even x = n"
proof (cases "of_int n \<le> x")
  case True
  with assms have "\<lfloor>x\<rfloor> = n" by (intro floor_unique) linarith+
  with assms True show ?thesis by (simp add: round_half_even_def Let_def)
next
  case False
  with assms have f: "\<lfloor>x\<rfloor> = n - 1" by (intro floor_unique) (simp, linarith+)
  have "1 / 2 < x - of_int (n - 1)" using assms False by simp
  with f show ?thesis by (simp add: round_half_even_def Let_def)
qed

lemma round_half_even_error: "\<bar>x - of_int (round_half_even x)\<bar> \<le> 1 / 2"
proof -
  define r where "r = x - of_int \<lfloor>x\<rfloor>"
  have r: "0 \<le> r" "r < 1" unfolding r_def by linarith+
  have x: "x = of_int \<lfloor>x\<rfloor> + r" by (simp add: r_def)
  have "round_half_even x = \<lfloor>x\<rfloor> \<and> r \<le> 1 / 2 \<or> round_half_even x = \<lfloor>x\<rfloor> + 1 \<and> 1 / 2 \<le> r"
    unfolding round_half_even_def Let_def r_def [symmetric] by auto
  then show ?thesis
  proof
    assume "round_half_even x = \<lfloor>x\<rfloor> \<and> r \<le> 1 / 2"
    then show ?thesis using r by (subst x) simp
  next
    assume "round_half_even x = \<lfloor>x\<rfloor> + 1 \<and> 1 / 2 \<le> r"
    then show ?thesis using r by (subst x) simp
  qed
qed

lemma round_mag_eqI:
  assumes "pow2 e \<le> q" "q < pow2 (e + 1)" "k = max e emin - int mbits"
    and "\<bar>q / pow2 k - of_int n\<bar> < 1 / 2"
  shows "round_mag mbits emin q = (n, k)"
  using assms ilog2_eqI [OF assms(1,2)] round_half_even_eqI [OF assms(4)]
  by (simp add: round_mag_def Let_def)

lemma round64_eqI:
  assumes "pow2 e \<le> q" "q < pow2 (e + 1)" "k = max e (- 1022) - 52"
    and "\<bar>q / pow2 k - of_int n\<bar> < 1 / 2"
    and "n \<noteq> 0" "of_int n * pow2 k < pow2 1024" "r = of_int n * pow2 k"
  shows "round64 neg q = Fin (if neg then - r else r)"
proof -
  have "round_mag 52 (- 1022) q = (n, k)"
    using assms(1,2) _ assms(4) by (rule round_mag_eqI) (simp add: assms(3))
  moreover have "of_int n * pow2 k \<noteq> 0"
    using assms(5) pow2_pos [of k] by simp
  ultimately show ?thesis
    using assms(6,7) by (simp add: round64_def)
qed

section \<open>Values through the frame\<close>

lemma le_val_le_bytes: "le_val (le_bytes n v) = v mod 256 ^ n"
proof (induction n arbitrary: v)
  case 0
  show ?case by simp
next
  case (Suc n)
  have "uint (word_of_int v :: 8 word) = v mod 256"
    by (simp add: uint_word_of_int take_bit_eq_mod)
  then have "le_val (le_bytes (Suc n) v) = v mod 256 + 256 * ((v div 256) mod 256 ^ n)"
    by (simp add: Suc.IH)
  also have "\<dots> = v mod (256 * 256 ^ n)"
    using zmod_zmult2_eq [of "256 ^ n" v 256] by simp
  finally show ?case by simp
qed

lemma to_signed_le_bytes:
  assumes "0 < n" "- (2 ^ (8 * n - 1)) \<le> v" "v < 2 ^ (8 * n - 1)"
  shows "to_signed n (le_val (le_bytes n v)) = v"
proof -
  define h :: int where "h = 2 ^ (8 * n - 1)"
  have p: "(256::int) ^ n = 2 * h"
  proof -
    have "(256::int) ^ n = 2 ^ (8 * n)" by (simp add: power_mult)
    also have "8 * n = Suc (8 * n - 1)" using assms(1) by simp
    finally show ?thesis by (simp add: h_def)
  qed
  have p2: "(2::int) ^ (8 * n) = 2 * h"
    using p by (simp add: power_mult)
  have ts: "to_signed n u = (if h \<le> u then u - 2 * h else u)" for u
    unfolding to_signed_def p2 h_def ..
  have lv: "le_val (le_bytes n v) = v mod (2 * h)"
    by (simp add: le_val_le_bytes p)
  have v: "- h \<le> v" "v < h" using assms(2,3) by (simp_all add: h_def)
  show ?thesis
  proof (cases "0 \<le> v")
    case True
    then have "v mod (2 * h) = v" using v by simp
    with v show ?thesis by (simp add: lv ts)
  next
    case False
    have "v mod (2 * h) = (v + 2 * h) mod (2 * h)" by simp
    also have "\<dots> = v + 2 * h" using v False by (intro mod_pos_pos_trivial) simp_all
    finally have "v mod (2 * h) = v + 2 * h" .
    with v show ?thesis by (simp add: lv ts)
  qed
qed

lemma Read_after_Write:
  assumes "length (fdata f) = 64" "Write bs f = (Returned (), f')"
    and "mp_data p = fdata f'" "mp_size p = fsize f'" "mp_offset p = unat (fsize f)"
  shows "Read (length bs) p = (Returned bs, p\<lparr>mp_offset := mp_offset p + length bs\<rparr>)"
proof -
  have room: "length bs + unat (fsize f) \<le> 64"
    using assms(2) by (auto simp: Write_def split: if_splits)
  from Write_ok [OF room assms(1)] assms(2)
  have sz: "unat (fsize f') = unat (fsize f) + length bs" and len: "length (fdata f') = 64"
    and fb: "frame_bytes f' = frame_bytes f @ bs"
    by auto
  have "take (length bs) (drop (unat (fsize f)) (fdata f')) = bs"
  proof -
    have "take (unat (fsize f) + length bs) (fdata f') = take (unat (fsize f)) (fdata f) @ bs"
      using fb by (simp add: frame_bytes_def sz)
    then have "drop (unat (fsize f)) (take (unat (fsize f) + length bs) (fdata f'))
                 = drop (unat (fsize f)) (take (unat (fsize f)) (fdata f) @ bs)"
      by simp
    moreover have "length (take (unat (fsize f)) (fdata f)) = unat (fsize f)"
      using room assms(1) by simp
    ultimately show ?thesis by (simp add: drop_take)
  qed
  then show ?thesis
    using assms(3-5) sz len room by (simp add: Read_def)
qed

section \<open>Quantizer\<close>

lemma T_limits:
  "T_max 8 = 127" "T_min 8 = - 128" "T_max 16 = 32767" "T_min 16 = - 32768"
  "T_max 32 = 2147483647" "T_min 32 = - 2147483648"
  by (simp_all add: T_max_def T_min_def)

lemma T_min_max: "T_min w = - T_max w - 1"
  by (simp add: T_max_def T_min_def)

lemma T_max_pos: "w \<in> {8, 16, 32} \<Longrightarrow> 0 < T_max w"
  by (auto simp: T_limits)

lemma trunc_range:
  assumes "- of_int m \<le> q" "q \<le> of_int m"
  shows "- m \<le> trunc q \<and> trunc q \<le> m"
proof -
  have "(0::real) \<le> of_int m" using assms by linarith
  then have m: "0 \<le> m" by simp
  show ?thesis
  proof (cases "0 \<le> q")
    case True
    then have t: "trunc q = \<lfloor>q\<rfloor>" by (simp add: trunc_def)
    have "0 \<le> \<lfloor>q\<rfloor>" using True by simp
    moreover have "\<lfloor>q\<rfloor> \<le> m" using assms(2) by (simp add: floor_le_iff)
    ultimately show ?thesis unfolding t using m by linarith
  next
    case False
    then have t: "trunc q = \<lceil>q\<rceil>" by (simp add: trunc_def)
    have "\<lceil>q\<rceil> \<le> 0" using False by (simp add: ceiling_le_iff)
    moreover have "- m \<le> \<lceil>q\<rceil>" using assms(1) by (simp add: le_ceiling_iff)
    ultimately show ?thesis unfolding t using m by linarith
  qed
qed

lemma trunc_near: "\<bar>of_int (trunc q) - q\<bar> < 1"
  by (simp add: trunc_def abs_if) linarith

lemma Saturate_nonfinite: "\<not> isfinite v \<Longrightarrow> Saturate w v scale = Inr (T_min w)"
  by (simp add: Saturate_def)

lemma Saturate_finite_cases:
  assumes v: "isfinite v" and w: "0 < T_max w"
  shows "Saturate w v scale =
     (case fdiv v scale of
        NaN \<Rightarrow> Inl UndefinedConversion
      | PInf \<Rightarrow> Inr (T_max w)
      | NInf \<Rightarrow> Inr (- T_max w)
      | NegZero \<Rightarrow> Inr 0
      | Fin q \<Rightarrow> if q < - of_int (T_max w) then Inr (- T_max w)
                 else if of_int (T_max w) < q then Inr (T_max w)
                 else Inr (trunc q))"
proof -
  have ng: "fneg (Fin (of_int (T_max w))) = Fin (- of_int (T_max w))"
    using w by simp
  show ?thesis
  proof (cases "fdiv v scale")
    case (Fin q)
    show ?thesis
    proof (cases "q < - of_int (T_max w) \<or> of_int (T_max w) < q")
      case True
      with Fin v w show ?thesis by (auto simp: Saturate_def Let_def ng)
    next
      case False
      then have "- of_int (T_max w) \<le> q" "q \<le> of_int (T_max w)" by simp_all
      from trunc_range [OF this] have "T_min w \<le> trunc q \<and> trunc q \<le> T_max w"
        by (simp add: T_min_max)
      with False Fin v show ?thesis
        by (simp add: Saturate_def Let_def ng double_to_int_def)
    qed
  next
    case NegZero
    with v w show ?thesis
      by (simp add: Saturate_def Let_def ng double_to_int_def trunc_def T_min_max)
  next
    case PInf
    with v w show ?thesis by (simp add: Saturate_def Let_def ng)
  next
    case NInf
    with v w show ?thesis by (simp add: Saturate_def Let_def ng)
  next
    case NaN
    with v w show ?thesis by (simp add: Saturate_def Let_def ng double_to_int_def)
  qed
qed

text \<open>
  Some operations of the program on particular doubles, each settled by exhibiting the
  exponent and the rounded significand: \<open>0.0001\<close>, \<open>32767 * 0.0001\<close>, the quotient of the
  latter by \<open>0.0001\<close>, and \<open>4.0 / 0.0001\<close>.
\<close>

lemma dbl_1_10000: "dbl (1 / 10000) = Fin (7378697629483821 / 73786976294838206464)"
  unfolding dbl_def
  using round64_eqI [where e = "- 14" and n = 7378697629483821 and q = "1 / 10000" and neg = False]
  by (simp add: pow2_def)

lemma mul_32767: "fmul (Fin 32767) (Fin (7378697629483821 / 73786976294838206464))
   = Fin (1844618112375613 / 562949953421312)"
  unfolding fmul_def
  using round64_eqI [where e = 1 and n = 7378472449502452 and neg = False
      and q = "32767 * (7378697629483821 / 73786976294838206464)"]
  by (simp add: pow2_def)

lemma div_back: "fdiv (Fin (1844618112375613 / 562949953421312)) (Fin (7378697629483821 / 73786976294838206464))
   = Fin (9006924376834047 / 274877906944)"
  unfolding fdiv_def
  using round64_eqI [where e = 14 and n = 9006924376834047 and neg = False
      and q = "(1844618112375613 / 562949953421312) / (7378697629483821 / 73786976294838206464)"]
  by (simp add: pow2_def)

lemma div_4: "fdiv (Fin 4) (Fin (7378697629483821 / 73786976294838206464)) = Fin 40000"
  unfolding fdiv_def
  using round64_eqI [where e = 15 and n = 5497558138880000 and neg = False
      and q = "4 / (7378697629483821 / 73786976294838206464)"]
  by (simp add: pow2_def)

lemma le_bytes_2: "le_bytes 2 v = [word_of_int v, word_of_int (v div 256)]"
  by (simp add: numeral_2_eq_2)

text \<open>
  C2. A value that is not finite (not-a-number or an infinity of either sign) is
  quantized at every integer resolution and every scale to the minimum of the target
  type, \<open>- 2 ^ (w - 1)\<close>; that value is what \<open>WriteMapped\<close> puts on the wire, and reading
  it back with \<open>ReadMapped\<close>, at any scale, gives not-a-number.
\<close>

theorem nonfinite_min_nan:
  assumes nf: "\<not> isfinite v"
    and res: "(res, w, n) \<in> {(kInt8, 8, 1), (kInt16, 16, 2), (kInt32, 32, 4)}"
    and len: "length (fdata f) = 64" and room: "unat (fsize f) + n \<le> 64"
  shows "Saturate w v scale = Inr (T_min w) \<and> T_min w = - (2 ^ (w - 1))
       \<and> Nanify w (T_min w) = NaN \<and> fmul NaN scale' = NaN
       \<and> (\<exists>f'. WriteMapped v s8 s16 s32 res f = (Returned (), f')
              \<and> frame_bytes f' = frame_bytes f @ le_bytes n (T_min w)
              \<and> (\<forall>p t8 t16 t32. mp_data p = fdata f' \<and> mp_size p = fsize f'
                     \<and> mp_offset p = unat (fsize f) \<longrightarrow>
                   ReadMapped res t8 t16 t32 p
                     = (Returned NaN, p\<lparr>mp_offset := mp_offset p + n\<rparr>)))"
proof -
  have n: "n = ResolutionSize res" "0 < n" "8 * n = w"
    using res by auto
  have rng: "- (2 ^ (8 * n - 1)) \<le> T_min w" "T_min w < 2 ^ (8 * n - 1)"
    using n by (simp_all add: T_min_def)
  have "length (le_bytes n (T_min w)) + unat (fsize f) \<le> 64"
    using room by (simp add: length_le_bytes)
  from Write_ok [OF this len] obtain f' where
    f': "Write (le_bytes n (T_min w)) f = (Returned (), f')"
      "frame_bytes f' = frame_bytes f @ le_bytes n (T_min w)"
    by (auto simp: length_le_bytes)
  have wm: "WriteMapped v s8 s16 s32 res f = (Returned (), f')"
    using res f'(1) nf by (auto simp: WriteMapped_def Saturate_nonfinite Write_int_def)
  have rd: "ReadMapped res t8 t16 t32 p = (Returned NaN, p\<lparr>mp_offset := mp_offset p + n\<rparr>)"
    if p: "mp_data p = fdata f' \<and> mp_size p = fsize f' \<and> mp_offset p = unat (fsize f)"
    for p t8 t16 t32
  proof -
    from Read_after_Write [OF len f'(1)] p
    have "Read n p = (Returned (le_bytes n (T_min w)), p\<lparr>mp_offset := mp_offset p + n\<rparr>)"
      by (simp add: length_le_bytes)
    then have "Read_int n p = (Returned (T_min w), p\<lparr>mp_offset := mp_offset p + n\<rparr>)"
      by (simp add: Read_int_def to_signed_le_bytes [OF n(2) rng])
    then show ?thesis
      using res by (auto simp: ReadMapped_def Nanify_def fmul_def)
  qed
  show ?thesis
    using nf wm f'(2) rd by (simp add: Saturate_nonfinite T_min_def Nanify_def fmul_def)
qed

theorem nonfinite_min_nan_witness:
  "\<not> isfinite NInf \<and> Saturate 16 NInf (Fin (1 / 4)) = Inr (- 32768)
   \<and> (\<exists>f'. WriteMapped NInf (Fin 1) (Fin (1 / 4)) (Fin (1 / 8)) kInt16 empty_frame = (Returned (), f')
          \<and> frame_bytes f' = [0x00, 0x80]
          \<and> ReadMapped kInt16 (Fin 1) (Fin (1 / 4)) (Fin (1 / 8))
                (MultiplexParser_new (fdata f') (fsize f'))
               = (Returned NaN, (MultiplexParser_new (fdata f') (fsize f'))\<lparr>mp_offset := 2\<rparr>))"
proof -
  have h: "\<not> isfinite NInf" "(kInt16, 16, 2) \<in> {(kInt8, 8, 1), (kInt16, 16, 2), (kInt32, 32, 4)}"
    "length (fdata empty_frame) = 64" "unat (fsize empty_frame) + 2 \<le> 64"
    by (simp_all add: empty_frame_simps)
  have b: "le_bytes 2 (T_min 16) = [0x00, 0x80]"
    by (simp add: le_bytes_2 T_limits)
  from nonfinite_min_nan [OF h, of "Fin (1 / 4)" "Fin (1 / 4)" "Fin 1" "Fin (1 / 4)" "Fin (1 / 8)"]
  show ?thesis
    unfolding b
    by (auto simp: T_limits empty_frame_simps MultiplexParser_new_def)
qed

text \<open>
  C3, as amended. For a finite value, a width of 8, 16 or 32 bits and a scale for which
  the quotient \<open>value / scale\<close> is a number, \<open>Saturate\<close> returns an integer between \<open>- max\<close>
  and \<open>max\<close>, never the minimum of the type, and it returns \<open>max\<close> (\<open>- max\<close>) whenever the
  quotient, as computed in \<open>double\<close>, is above \<open>max\<close> (below \<open>- max\<close>).
\<close>

theorem Saturate_symmetric_clamp:
  assumes "isfinite v" "w \<in> {8, 16, 32}" "fdiv v scale \<noteq> NaN"
  shows "\<exists>n. Saturate w v scale = Inr n \<and> - T_max w \<le> n \<and> n \<le> T_max w \<and> n \<noteq> T_min w
          \<and> (fless (Fin (of_int (T_max w))) (fdiv v scale) \<longrightarrow> n = T_max w)
          \<and> (fless (fdiv v scale) (Fin (- of_int (T_max w))) \<longrightarrow> n = - T_max w)"
proof -
  have w: "0 < T_max w" using assms(2) by (rule T_max_pos)
  note S = Saturate_finite_cases [OF assms(1) w, of scale]
  show ?thesis
  proof (cases "fdiv v scale")
    case (Fin q)
    show ?thesis
    proof (cases "q < - of_int (T_max w) \<or> of_int (T_max w) < q")
      case True
      with Fin w S show ?thesis by (auto simp: T_min_max)
    next
      case False
      then have "- of_int (T_max w) \<le> q" "q \<le> of_int (T_max w)" by simp_all
      from trunc_range [OF this] False Fin w S show ?thesis by (simp add: T_min_max)
    qed
  next
    case NegZero
    with w S show ?thesis by (simp add: T_min_max)
  next
    case PInf
    with w S show ?thesis by (simp add: T_min_max)
  next
    case NInf
    with w S show ?thesis by (simp add: T_min_max)
  next
    case NaN
    with assms(3) show ?thesis by simp
  qed
qed

theorem Saturate_symmetric_clamp_witness:
  "isfinite (Fin 4) \<and> fdiv (Fin 4) (dbl (1 / 10000)) \<noteq> NaN
   \<and> fless (Fin (of_int (T_max 16))) (fdiv (Fin 4) (dbl (1 / 10000)))
   \<and> Saturate 16 (Fin 4) (dbl (1 / 10000)) = Inr 32767"
proof -
  have d: "fdiv (Fin 4) (dbl (1 / 10000)) = Fin 40000"
    by (simp add: dbl_1_10000 div_4)
  have h: "isfinite (Fin 4)" "(16::nat) \<in> {8, 16, 32}" "fdiv (Fin 4) (dbl (1 / 10000)) \<noteq> NaN"
    by (simp_all add: d)
  have l: "fless (Fin (of_int (T_max 16))) (fdiv (Fin 4) (dbl (1 / 10000)))"
    by (simp add: d T_limits)
  from Saturate_symmetric_clamp [OF h] l
  have "Saturate 16 (Fin 4) (dbl (1 / 10000)) = Inr 32767"
    by (auto simp: T_limits)
  with h l show ?thesis by simp
qed

text \<open>
  The claim as stated fails in two places. At the int16 scale of a position, \<open>0.0001\<close>,
  the value \<open>4.0\<close> lies above \<open>32767 * 0.0001\<close> and is encoded as \<open>32767\<close>, whereas the double
  \<open>32767 * 0.0001\<close> itself is encoded as \<open>32766\<close>: its quotient by the scale rounds to
  \<open>32766.999999999996\<close> and is truncated. And \<open>0.0 / 0.0\<close> is not a number, whose
  conversion to an integer type is undefined.
\<close>

theorem Saturate_symmetric_clamp_counterexample:
  "Saturate 16 (Fin 4) (dbl (1 / 10000)) = Inr 32767
   \<and> fless (fmul (Fin 32767) (dbl (1 / 10000))) (Fin 4)
   \<and> Saturate 16 (fmul (Fin 32767) (dbl (1 / 10000))) (dbl (1 / 10000)) = Inr 32766
   \<and> le_bytes 2 32766 \<noteq> le_bytes 2 32767
   \<and> Saturate 8 (Fin 0) (Fin 0) = Inl UndefinedConversion"
proof -
  have 1: "Saturate 16 (Fin 4) (dbl (1 / 10000)) = Inr 32767"
    by (simp add: Saturate_finite_cases T_limits dbl_1_10000 div_4)
  have 2: "fless (fmul (Fin 32767) (dbl (1 / 10000))) (Fin 4)"
    by (simp add: dbl_1_10000 mul_32767)
  have 3: "Saturate 16 (fmul (Fin 32767) (dbl (1 / 10000))) (dbl (1 / 10000)) = Inr 32766"
    by (simp add: Saturate_finite_cases T_limits dbl_1_10000 mul_32767 div_back trunc_def)
  have 4: "le_bytes 2 32766 \<noteq> le_bytes 2 32767"
    by (simp add: le_bytes_2)
  have 5: "Saturate 8 (Fin 0) (Fin 0) = Inl UndefinedConversion"
    by (simp add: Saturate_finite_cases T_limits fdiv_def)
  from 1 2 3 4 5 show ?thesis by (intro conjI)
qed

section \<open>Rounding error\<close>

lemma pow2_numerals:
  "pow2 1024 = 2 * pow2 1023" "pow2 (- 1075) \<le> 1" "2 \<le> pow2 1023"
proof -
  show "pow2 1024 = 2 * pow2 1023"
    using pow2_add [of 1 1023] by (simp add: pow2_def)
  have "pow2 (- 1075) \<le> pow2 0" by (rule pow2_mono) simp
  then show "pow2 (- 1075) \<le> 1" by (simp add: pow2_def)
  have "pow2 1 \<le> pow2 1023" by (rule pow2_mono) simp
  then show "2 \<le> pow2 1023" by (simp add: pow2_def)
qed

lemma round_mag_error:
  assumes "0 < q" "round_mag 52 (- 1022) q = (n, k)"
  shows "\<bar>of_int n * pow2 k - q\<bar> \<le> q / 2 ^ 53 + pow2 (- 1075)"
proof -
  have k: "k = max (ilog2 q) (- 1022) - 52" and n: "n = round_half_even (q / pow2 k)"
    using assms(2) by (auto simp: round_mag_def Let_def)
  have pk: "0 < pow2 k" by (rule pow2_pos)
  have "\<bar>q / pow2 k - of_int n\<bar> \<le> 1 / 2"
    unfolding n by (rule round_half_even_error)
  then have "\<bar>q / pow2 k - of_int n\<bar> * pow2 k \<le> 1 / 2 * pow2 k"
    using pk by (intro mult_right_mono) simp_all
  moreover have "\<bar>q / pow2 k - of_int n\<bar> * pow2 k = \<bar>q - of_int n * pow2 k\<bar>"
  proof -
    have "\<bar>q / pow2 k - of_int n\<bar> * pow2 k = \<bar>(q / pow2 k - of_int n) * pow2 k\<bar>"
      using pk by (simp add: abs_mult)
    also have "(q / pow2 k - of_int n) * pow2 k = q - of_int n * pow2 k"
      using pk by (simp add: field_simps)
    finally show ?thesis .
  qed
  ultimately have half: "\<bar>of_int n * pow2 k - q\<bar> \<le> pow2 k / 2"
    by (simp add: abs_minus_commute)
  have "pow2 k / 2 \<le> q / 2 ^ 53 + pow2 (- 1075)"
  proof (cases "- 1022 \<le> ilog2 q")
    case True
    then have "k = ilog2 q + (- 52)" using k by simp
    then have "pow2 k = pow2 (ilog2 q) * pow2 (- 52)" by (simp only: pow2_add)
    also have "\<dots> \<le> q * pow2 (- 52)"
      using ilog2_bounds(1) [OF assms(1)] pow2_pos [of "- 52"] by (intro mult_right_mono) simp_all
    finally have "pow2 k / 2 \<le> q * pow2 (- 52) / 2" by simp
    also have "\<dots> = q / 2 ^ 53" by (simp add: pow2_def)
    finally show ?thesis using pow2_pos [of "- 1075"] by linarith
  next
    case False
    then have "k = - 1074" using k by simp
    then have "pow2 k / 2 = pow2 (- 1075)"
      using pow2_add [of "- 1075" 1] by (simp add: pow2_def)
    then show ?thesis using assms(1) by simp
  qed
  with half show ?thesis by linarith
qed

lemma round64_error:
  assumes "0 < q" "q \<le> pow2 1023"
  shows "isfinite (round64 neg q)"
    and "\<bar>fval (round64 neg q) - (if neg then - q else q)\<bar> \<le> q / 2 ^ 53 + pow2 (- 1075)"
proof -
  obtain n k where nk: "round_mag 52 (- 1022) q = (n, k)"
    by (cases "round_mag 52 (- 1022) q")
  let ?m = "of_int n * pow2 k :: real"
  note err = round_mag_error [OF assms(1) nk]
  have "q / 2 ^ 53 \<le> q / 4" using assms(1) by (simp add: field_simps)
  then have "?m \<le> q + q / 4 + pow2 (- 1075)" using err by linarith
  also have "\<dots> < pow2 1024" using assms(2) pow2_numerals by linarith
  finally have fin: "?m < pow2 1024" .
  show "isfinite (round64 neg q)"
    using fin by (simp add: round64_def nk signed_zero_def Let_def)
  show "\<bar>fval (round64 neg q) - (if neg then - q else q)\<bar> \<le> q / 2 ^ 53 + pow2 (- 1075)"
  proof (cases "?m = 0")
    case True
    with err have "\<bar>q\<bar> \<le> q / 2 ^ 53 + pow2 (- 1075)" by simp
    with True show ?thesis by (simp add: round64_def nk signed_zero_def Let_def)
  next
    case False
    with fin have "round64 neg q = Fin (if neg then - ?m else ?m)"
      by (simp add: round64_def nk Let_def)
    with err show ?thesis by (simp add: abs_minus_commute) 
  qed
qed

lemma finite_nonzero:
  assumes "isfinite a" "fval a \<noteq> 0"
  shows "a = Fin (fval a)"
  using assms by (cases a) simp_all

lemma fdiv_error:
  assumes a: "isfinite a" and b: "isfinite b" "fval b \<noteq> 0"
    and r: "\<bar>fval a / fval b\<bar> \<le> pow2 1023"
  shows "isfinite (fdiv a b)
       \<and> \<bar>fval (fdiv a b) - fval a / fval b\<bar> \<le> \<bar>fval a / fval b\<bar> / 2 ^ 53 + pow2 (- 1075)"
proof -
  have nn: "a \<noteq> NaN" "b \<noteq> NaN" using a b by auto
  have bf: "b = Fin (fval b)" using b by (rule finite_nonzero)
  show ?thesis
  proof (cases "fval a = 0")
    case True
    then have "fdiv a b = signed_zero (sign_bit a \<noteq> sign_bit b)"
      using nn a b by (simp add: fdiv_def Let_def)
    with True pow2_pos [of "- 1075"]
    show ?thesis
      by (simp add: signed_zero_def)
  next
    case False
    with a have af: "a = Fin (fval a)" by (rule finite_nonzero)
    let ?q = "\<bar>fval a\<bar> / \<bar>fval b\<bar>"
    let ?neg = "sign_bit a \<noteq> sign_bit b"
    have q: "0 < ?q" "?q \<le> pow2 1023" using False b(2) r by (simp_all add: abs_divide)
    have d: "fdiv a b = round64 ?neg ?q"
      using nn a b False by (simp add: fdiv_def Let_def)
    have sg: "(if ?neg then - ?q else ?q) = fval a / fval b"
      using False b(2) by (subst af, subst bf) (auto simp: abs_if)
    from round64_error [OF q, of ?neg]
    show ?thesis
      unfolding d sg by (simp add: abs_divide)
  qed
qed

lemma fmul_error:
  assumes a: "isfinite a" and b: "isfinite b"
    and r: "\<bar>fval a * fval b\<bar> \<le> pow2 1023"
  shows "isfinite (fmul a b)
       \<and> \<bar>fval (fmul a b) - fval a * fval b\<bar> \<le> \<bar>fval a * fval b\<bar> / 2 ^ 53 + pow2 (- 1075)"
proof -
  have nn: "a \<noteq> NaN" "b \<noteq> NaN" using a b by auto
  show ?thesis
  proof (cases "fval a = 0 \<or> fval b = 0")
    case True
    then have "fmul a b = signed_zero (sign_bit a \<noteq> sign_bit b)"
      using nn a b by (simp add: fmul_def Let_def)
    with True pow2_pos [of "- 1075"]
    show ?thesis
      by (auto simp: signed_zero_def)
  next
    case False
    then have z: "fval a \<noteq> 0" "fval b \<noteq> 0" by simp_all
    have af: "a = Fin (fval a)" using a z(1) by (rule finite_nonzero)
    have bf: "b = Fin (fval b)" using b z(2) by (rule finite_nonzero)
    let ?q = "\<bar>fval a\<bar> * \<bar>fval b\<bar>"
    let ?neg = "sign_bit a \<noteq> sign_bit b"
    have q: "0 < ?q" "?q \<le> pow2 1023" using z r by (simp_all add: abs_mult)
    have d: "fmul a b = round64 ?neg ?q"
      using nn a b False by (simp add: fmul_def Let_def)
    have sg: "(if ?neg then - ?q else ?q) = fval a * fval b"
      using z by (subst af, subst bf) (auto simp: abs_if)
    from round64_error [OF q, of ?neg]
    show ?thesis
      unfolding d sg by (simp add: abs_mult)
  qed
qed

section \<open>Round trip of a quantized value\<close>

lemma T_max_le: "w \<in> {8, 16, 32} \<Longrightarrow> T_max w \<le> 2147483647"
  by (auto simp: T_limits)

lemma eta_small:
  assumes "pow2 (- 64) \<le> S"
  shows "pow2 (- 1075) \<le> S / 2 ^ 23" and "pow2 (- 1075) \<le> 1 / 2 ^ 23"
proof -
  have "pow2 (- 1075) = pow2 (- 64) * pow2 (- 1011)"
    using pow2_add [of "- 64" "- 1011"] by simp
  also have "\<dots> \<le> S * pow2 (- 1011)"
    using assms pow2_pos [of "- 1011"] by (intro mult_right_mono) simp_all
  also have "pow2 (- 1011) \<le> pow2 (- 23)" by (rule pow2_mono) simp
  then have "S * pow2 (- 1011) \<le> S * pow2 (- 23)"
    using assms pow2_pos [of "- 64"] by (intro mult_left_mono) simp_all
  finally show "pow2 (- 1075) \<le> S / 2 ^ 23" by (simp add: pow2_def)
  have "pow2 (- 1075) \<le> pow2 (- 23)" by (rule pow2_mono) simp
  then show "pow2 (- 1075) \<le> 1 / 2 ^ 23" by (simp add: pow2_def)
qed

lemma quantize_roundtrip_bound:
  assumes w: "w \<in> {8, 16, 32}"
    and v: "isfinite v"
    and s: "isfinite s" "pow2 (- 64) \<le> fval s" "fval s \<le> pow2 64"
    and rng: "\<bar>fval v\<bar> \<le> of_int (T_max w) * fval s"
  shows "\<exists>n. Saturate w v s = Inr n \<and> - T_max w \<le> n \<and> n \<le> T_max w
           \<and> isfinite (fmul (Nanify w n) s)
           \<and> \<bar>fval (fmul (Nanify w n) s) - fval v\<bar> < fval s * (1 + 1 / 2 ^ 20)"
proof -
  define M where "M = T_max w"
  define S where "S = fval s"
  define x where "x = fval v / S"
  define \<eta> where "\<eta> = pow2 (- 1075)"
  define \<epsilon> :: real where "\<epsilon> = 1 / 2 ^ 23"
  have M: "0 < M" "M \<le> 2147483647"
    using w T_max_pos T_max_le by (simp_all add: M_def)
  have Mr: "(0::real) < of_int M" "real_of_int M \<le> 2147483647"
    using M by simp_all
  have S: "0 < S" "pow2 (- 64) \<le> S" "S \<le> pow2 64"
    using s pow2_pos [of "- 64"] by (simp_all add: S_def)
  have eta: "\<eta> \<le> S * \<epsilon>" "\<eta> \<le> \<epsilon>" "0 < \<eta>"
    using eta_small [OF S(2)] pow2_pos [of "- 1075"] by (simp_all add: \<eta>_def \<epsilon>_def)
  have eps: "0 < \<epsilon>" by (simp add: \<epsilon>_def)
  have M53: "of_int M / 2 ^ 53 \<le> 2 * \<epsilon>"
    using Mr by (simp add: \<epsilon>_def field_simps)
  have xS: "x * S = fval v" using S(1) by (simp add: x_def)
  have xM: "\<bar>x\<bar> \<le> of_int M"
  proof -
    have "\<bar>x\<bar> = \<bar>fval v\<bar> / S" using S(1) by (simp add: x_def abs_divide)
    also have "\<dots> \<le> of_int M" using rng S(1) by (simp add: M_def S_def field_simps)
    finally show ?thesis .
  qed
  have big: "real_of_int M \<le> pow2 1023"
  proof -
    have "real_of_int M \<le> pow2 31" using Mr by (simp add: pow2_def)
    also have "\<dots> \<le> pow2 1023" by (rule pow2_mono) simp
    finally show ?thesis .
  qed
  have sn0: "fval s \<noteq> 0" using S(1) by (simp add: S_def)
  have "\<bar>fval v / fval s\<bar> \<le> pow2 1023" using xM big by (simp add: x_def S_def)
  from fdiv_error [OF v s(1) sn0 this]
  have X: "isfinite (fdiv v s)" "\<bar>fval (fdiv v s) - x\<bar> \<le> \<bar>x\<bar> / 2 ^ 53 + \<eta>"
    by (simp_all add: x_def S_def \<eta>_def)
  define q where "q = fval (fdiv v s)"
  have "\<bar>x\<bar> / 2 ^ 53 \<le> of_int M / 2 ^ 53" using xM by (simp add: field_simps)
  with X(2) M53 eta(2) have qx: "\<bar>q - x\<bar> \<le> 3 * \<epsilon>" by (simp add: q_def)
  have "\<exists>n. Saturate w v s = Inr n \<and> - M \<le> n \<and> n \<le> M \<and> \<bar>of_int n - x\<bar> < 1 + 3 * \<epsilon>"
  proof -
    note C = Saturate_finite_cases [OF v, of w s, unfolded M_def [symmetric], OF M(1)]
    have key: "\<exists>n. (if q < - of_int M then Inr (- M) else if of_int M < q then Inr M
                      else Inr (trunc q)) = (Inr n :: error + int)
                 \<and> - M \<le> n \<and> n \<le> M \<and> \<bar>of_int n - x\<bar> < 1 + 3 * \<epsilon>"
    proof (cases "q < - of_int M")
      case True
      have "\<bar>of_int (- M) - x\<bar> < 1 + 3 * \<epsilon>" using True qx xM eps by (simp add: abs_if split: if_splits) 
      with True M show ?thesis by simp
    next
      case lo: False
      show ?thesis
      proof (cases "of_int M < q")
        case True
        have "\<bar>of_int M - x\<bar> < 1 + 3 * \<epsilon>" using True qx xM eps by (simp add: abs_if split: if_splits)
        with True lo M show ?thesis by simp
      next
        case False
        with lo have "- of_int M \<le> q" "q \<le> of_int M" by simp_all
        from trunc_range [OF this] have r: "- M \<le> trunc q \<and> trunc q \<le> M" .
        have "\<bar>of_int (trunc q) - x\<bar> < 1 + 3 * \<epsilon>"
          using trunc_near [of q] qx by linarith
        with r lo False show ?thesis by simp
      qed
    qed
    show ?thesis
    proof (cases "fdiv v s")
      case (Fin q')
      then have "q' = q" by (simp add: q_def)
      with C Fin key show ?thesis by simp
    next
      case NegZero
      then have "q = 0" by (simp add: q_def)
      with key M have "\<bar>of_int 0 - x\<bar> < 1 + 3 * \<epsilon>" by (simp add: trunc_def)
      with C NegZero M show ?thesis by simp
    next
      case PInf with X(1) show ?thesis by simp
    next
      case NInf with X(1) show ?thesis by simp
    next
      case NaN with X(1) show ?thesis by simp
    qed
  qed
  then obtain n where n: "Saturate w v s = Inr n" "- M \<le> n" "n \<le> M"
    "\<bar>of_int n - x\<bar> < 1 + 3 * \<epsilon>"
    by blast
  have nan: "Nanify w n = Fin (of_int n)"
    using n(2) by (simp add: Nanify_def T_min_max M_def)
  have nM: "\<bar>real_of_int n\<bar> \<le> of_int M" using n(2,3) by linarith
  have nS: "\<bar>of_int n * S\<bar> \<le> of_int M * S"
    using nM S(1) by (simp add: abs_mult mult_right_mono)
  have "of_int M * S \<le> pow2 31 * pow2 64"
    using Mr S by (intro mult_mono) (simp_all add: pow2_def)
  also have "\<dots> = pow2 95" using pow2_add [of 31 64] by simp
  also have "\<dots> \<le> pow2 1023" by (rule pow2_mono) simp
  finally have "\<bar>fval (Fin (of_int n)) * fval s\<bar> \<le> pow2 1023"
    using nS by (simp add: S_def)
  from fmul_error [OF _ s(1) this]
  have D: "isfinite (fmul (Fin (of_int n)) s)"
    "\<bar>fval (fmul (Fin (of_int n)) s) - of_int n * S\<bar> \<le> \<bar>of_int n * S\<bar> / 2 ^ 53 + \<eta>"
    by (simp_all add: S_def \<eta>_def)
  define d where "d = fval (fmul (Fin (of_int n)) s)"
  have "\<bar>of_int n * S\<bar> / 2 ^ 53 \<le> of_int M * S / 2 ^ 53"
    using nS by (simp add: field_simps)
  also have "\<dots> = (of_int M / 2 ^ 53) * S" by simp
  also have "\<dots> \<le> 2 * \<epsilon> * S" using M53 S(1) by (intro mult_right_mono) simp_all
  finally have "\<bar>of_int n * S\<bar> / 2 ^ 53 \<le> 2 * \<epsilon> * S" .
  with D(2) eta(1) have "\<bar>d - of_int n * S\<bar> \<le> 2 * \<epsilon> * S + S * \<epsilon>"
    unfolding d_def by linarith
  then have e1: "\<bar>d - of_int n * S\<bar> \<le> 3 * \<epsilon> * S" by (simp add: algebra_simps)
  have "of_int n * S - fval v = (of_int n - x) * S"
    by (simp add: xS [symmetric] algebra_simps)
  then have "\<bar>of_int n * S - fval v\<bar> = \<bar>of_int n - x\<bar> * S"
    using S(1) by (simp add: abs_mult)
  also have "\<dots> < (1 + 3 * \<epsilon>) * S" using n(4) S(1) by (intro mult_strict_right_mono)
  finally have e2: "\<bar>of_int n * S - fval v\<bar> < (1 + 3 * \<epsilon>) * S" .
  have "\<bar>d - fval v\<bar> \<le> \<bar>d - of_int n * S\<bar> + \<bar>of_int n * S - fval v\<bar>" by simp
  also have "\<dots> < 3 * \<epsilon> * S + (1 + 3 * \<epsilon>) * S" using e1 e2 by linarith
  also have "\<dots> = S * (1 + 6 * \<epsilon>)" by (simp add: algebra_simps)
  also have "\<dots> \<le> S * (1 + 1 / 2 ^ 20)" using S(1) by (intro mult_left_mono) (simp_all add: \<epsilon>_def)
  finally have "\<bar>d - fval v\<bar> < S * (1 + 1 / 2 ^ 20)" .
  with n D(1) show ?thesis
    unfolding d_def S_def M_def by (intro exI [of _ n]) (simp add: nan)
qed

lemma near_scale_ok:
  assumes "\<bar>x - q\<bar> \<le> q / 2 ^ 53 + pow2 (- 1075)" "pow2 (- 32) \<le> q" "q \<le> 1"
  shows "pow2 (- 64) \<le> x \<and> x \<le> pow2 64"
proof -
  have q: "0 < q" using assms(2) pow2_pos [of "- 32"] by linarith
  have a: "q / 2 ^ 53 \<le> q / 2" using q by (simp add: field_simps)
  have "pow2 (- 1075) \<le> pow2 (- 34)" by (rule pow2_mono) simp
  moreover have "pow2 (- 64) \<le> pow2 (- 34)" by (rule pow2_mono) simp
  moreover have "pow2 (- 32) = 4 * pow2 (- 34)"
    using pow2_add [of 2 "- 34"] by (simp add: pow2_def)
  ultimately have lo: "pow2 (- 64) \<le> x" using assms(1,2) a by (simp add: abs_le_iff) 
  have "pow2 0 \<le> pow2 64" by (rule pow2_mono) simp
  moreover have "pow2 1 \<le> pow2 64" by (rule pow2_mono) simp
  moreover have "pow2 (- 1075) \<le> pow2 0" by (rule pow2_mono) simp
  ultimately have hi: "x \<le> pow2 64" using assms(1,3) a q by (simp add: pow2_def abs_le_iff)
  from lo hi show ?thesis ..
qed

lemma dbl_scale_ok:
  assumes "pow2 (- 32) \<le> q" "q \<le> 1"
  shows "scale_ok (dbl q)"
proof -
  have q: "0 < q" using assms(1) pow2_pos [of "- 32"] by linarith
  have "pow2 0 \<le> pow2 1023" by (rule pow2_mono) simp
  then have "q \<le> pow2 1023" using assms(2) by (simp add: pow2_def)
  from round64_error [OF q this, of False] near_scale_ok [OF _ assms]
  show ?thesis using q by (simp add: scale_ok_def dbl_def)
qed

lemma inv_scale_ok:
  assumes "1 \<le> N" "N \<le> 2 ^ 32"
  shows "scale_ok (fdiv (Fin 1) (Fin N))"
proof -
  have "pow2 0 \<le> pow2 1023" by (rule pow2_mono) simp
  then have "\<bar>fval (Fin 1) / fval (Fin N)\<bar> \<le> pow2 1023"
    using assms by (simp add: pow2_def field_simps)
  from fdiv_error [OF _ _ _ this] assms
  have e: "isfinite (fdiv (Fin 1) (Fin N))"
    "\<bar>fval (fdiv (Fin 1) (Fin N)) - 1 / N\<bar> \<le> (1 / N) / 2 ^ 53 + pow2 (- 1075)"
    by simp_all
  have "pow2 (- 32) \<le> 1 / N" "1 / N \<le> 1"
    using assms by (simp_all add: pow2_def field_simps)
  from near_scale_ok [OF e(2) this] e(1) show ?thesis by (simp add: scale_ok_def)
qed

lemma one_scale_ok: "scale_ok (Fin 1)"
proof -
  have "pow2 (- 64) \<le> pow2 0" "pow2 0 \<le> pow2 64" by (rule pow2_mono, simp)+
  then show ?thesis by (simp add: scale_ok_def pow2_def)
qed

lemma quantity_scales_ok:
  assumes "sc \<in> set quantity_scales" "res \<in> {kInt8, kInt16, kInt32}"
  shows "scale_ok (scale_at res sc)"
proof -
  have d: "scale_ok (dbl (1 / 100))" "scale_ok (dbl (1 / 10000))" "scale_ok (dbl (1 / 100000))"
    "scale_ok (dbl (1 / 10))" "scale_ok (dbl (25 / 100000))" "scale_ok (dbl (1 / 2))"
    "scale_ok (dbl (1 / 1000))" "scale_ok (dbl (1 / 1000000))"
    by (rule dbl_scale_ok; simp add: pow2_def)+
  have i: "scale_ok (fdiv (Fin 1) (Fin 127))" "scale_ok (fdiv (Fin 1) (Fin 32767))"
    "scale_ok (fdiv (Fin 1) (Fin 2147483647))"
    by (rule inv_scale_ok; simp)+
  from assms d i one_scale_ok show ?thesis
    by (auto simp: quantity_scales_def position_scales_def velocity_scales_def torque_scales_def
        pwm_scales_def voltage_scales_def temperature_scales_def time_scales_def)
qed

lemma WriteMapped_int_roundtrip:
  assumes res: "(res, w, n) \<in> {(kInt8, 8, 1), (kInt16, 16, 2), (kInt32, 32, 4)}"
    and sat: "Saturate w v (scale_at res (s8, s16, s32)) = Inr k"
    and k: "- T_max w \<le> k" "k \<le> T_max w"
    and len: "length (fdata f) = 64" and room: "unat (fsize f) + n \<le> 64"
  shows "\<exists>f'. WriteMapped v s8 s16 s32 res f = (Returned (), f')
           \<and> frame_bytes f' = frame_bytes f @ le_bytes n k
           \<and> (\<forall>p. mp_data p = fdata f' \<and> mp_size p = fsize f' \<and> mp_offset p = unat (fsize f)
                  \<longrightarrow> ReadMapped res s8 s16 s32 p
                       = (Returned (fmul (Nanify w k) (scale_at res (s8, s16, s32))),
                          p\<lparr>mp_offset := mp_offset p + n\<rparr>))"
proof -
  have n: "0 < n" "8 * n = w"
    using res by auto
  have rng: "- (2 ^ (8 * n - 1)) \<le> k" "k < 2 ^ (8 * n - 1)"
    using n k by (simp_all add: T_max_def)
  have "length (le_bytes n k) + unat (fsize f) \<le> 64"
    using room by (simp add: length_le_bytes)
  from Write_ok [OF this len] obtain f' where
    f': "Write (le_bytes n k) f = (Returned (), f')"
      "frame_bytes f' = frame_bytes f @ le_bytes n k"
    by (auto simp: length_le_bytes)
  have wm: "WriteMapped v s8 s16 s32 res f = (Returned (), f')"
    using res f'(1) sat by (auto simp: WriteMapped_def Write_int_def)
  have rd: "ReadMapped res s8 s16 s32 p
              = (Returned (fmul (Nanify w k) (scale_at res (s8, s16, s32))),
                 p\<lparr>mp_offset := mp_offset p + n\<rparr>)"
    if p: "mp_data p = fdata f' \<and> mp_size p = fsize f' \<and> mp_offset p = unat (fsize f)" for p
  proof -
    from Read_after_Write [OF len f'(1)] p
    have "Read n p = (Returned (le_bytes n k), p\<lparr>mp_offset := mp_offset p + n\<rparr>)"
      by (simp add: length_le_bytes)
    then have "Read_int n p = (Returned k, p\<lparr>mp_offset := mp_offset p + n\<rparr>)"
      by (simp add: Read_int_def to_signed_le_bytes [OF n(1) rng])
    then show ?thesis
      using res by (auto simp: ReadMapped_def)
  qed
  from wm f'(2) rd show ?thesis by blast
qed

lemma float_bytes: "word_of_int (le_val (le_bytes 4 (uint x))) = (x :: 32 word)"
proof -
  have "uint x < 2 ^ 32" using uint_bounded [of x] by simp
  then have "uint x mod 256 ^ 4 = uint x" by simp
  then show ?thesis by (simp add: le_val_le_bytes)
qed

lemma WriteMapped_float_roundtrip:
  assumes len: "length (fdata f) = 64" and room: "unat (fsize f) + 4 \<le> 64"
  shows "\<exists>f'. WriteMapped v s8 s16 s32 kFloat f = (Returned (), f')
           \<and> frame_bytes f' = frame_bytes f @ le_bytes 4 (uint (double_to_float v))
           \<and> (\<forall>p. mp_data p = fdata f' \<and> mp_size p = fsize f' \<and> mp_offset p = unat (fsize f)
                  \<longrightarrow> ReadMapped kFloat s8 s16 s32 p
                       = (Returned (float_to_double (double_to_float v)),
                          p\<lparr>mp_offset := mp_offset p + 4\<rparr>))"
proof -
  let ?bs = "le_bytes 4 (uint (double_to_float v))"
  have "length ?bs + unat (fsize f) \<le> 64"
    using room by (simp add: length_le_bytes)
  from Write_ok [OF this len] obtain f' where
    f': "Write ?bs f = (Returned (), f')" "frame_bytes f' = frame_bytes f @ ?bs"
    by (auto simp: length_le_bytes)
  have wm: "WriteMapped v s8 s16 s32 kFloat f = (Returned (), f')"
    using f'(1) by (simp add: WriteMapped_def)
  have rd: "ReadMapped kFloat s8 s16 s32 p
              = (Returned (float_to_double (double_to_float v)), p\<lparr>mp_offset := mp_offset p + 4\<rparr>)"
    if p: "mp_data p = fdata f' \<and> mp_size p = fsize f' \<and> mp_offset p = unat (fsize f)" for p
  proof -
    from Read_after_Write [OF len f'(1)] p
    have "Read 4 p = (Returned ?bs, p\<lparr>mp_offset := mp_offset p + 4\<rparr>)"
      by (simp add: length_le_bytes)
    then show ?thesis
      by (simp add: ReadMapped_def float_bytes)
  qed
  from wm f'(2) rd show ?thesis by blast
qed

section \<open>Single precision\<close>

lemma float_fields:
  fixes x :: "32 word"
  defines "e \<equiv> unat (drop_bit 23 x AND 0xFF)" and "m \<equiv> unat (x AND 0x7FFFFF)"
  shows "uint x = (if bit x 31 then 2 ^ 31 else 0) + int e * 2 ^ 23 + int m"
    and "e < 256" and "m < 2 ^ 23"
proof -
  define u where "u = unat x"
  have u: "u < 2 ^ 32" using unsigned_less [of x, where ?'a = nat] by (simp add: u_def)
  have "x AND 0x7FFFFF = x AND mask 23"
    by (simp add: mask_eq_exp_minus_1)
  then have "unat (x AND 0x7FFFFF) = unat (take_bit 23 x)"
    by (simp only: take_bit_eq_mask)
  also have "\<dots> = take_bit 23 (unat x)" by (rule unsigned_take_bit_eq)
  also have "\<dots> = unat x mod 2 ^ 23" by (rule take_bit_eq_mod)
  finally have m: "m = u mod 2 ^ 23"
    by (simp only: m_def u_def)
  have "drop_bit 23 x AND 0xFF = drop_bit 23 x AND mask 8"
    by (simp add: mask_eq_exp_minus_1)
  then have "unat (drop_bit 23 x AND 0xFF) = unat (take_bit 8 (drop_bit 23 x))"
    by (simp only: take_bit_eq_mask)
  also have "\<dots> = take_bit 8 (unat (drop_bit 23 x))" by (rule unsigned_take_bit_eq)
  also have "\<dots> = unat (drop_bit 23 x) mod 2 ^ 8" by (rule take_bit_eq_mod)
  also have "unat (drop_bit 23 x) = drop_bit 23 (unat x)" by (rule unat_drop_bit_eq)
  also have "\<dots> = unat x div 2 ^ 23" by (rule drop_bit_eq_div)
  finally have e: "e = (u div 2 ^ 23) mod 2 ^ 8"
    by (simp only: e_def u_def)
  have b: "bit x 31 \<longleftrightarrow> u div 2 ^ 31 = 1"
  proof -
    have "bit x 31 \<longleftrightarrow> bit u 31" by (simp add: u_def bit_unsigned_iff)
    also have "\<dots> \<longleftrightarrow> odd (u div 2 ^ 31)" by (simp add: bit_iff_odd)
    also have "\<dots> \<longleftrightarrow> u div 2 ^ 31 = 1"
    proof -
      have "u div 2 ^ 31 < 2" using u by (simp add: div_less_iff_less_mult)
      then show ?thesis by (cases "u div 2 ^ 31 = 0") auto
    qed
    finally show ?thesis .
  qed
  have d: "u div 2 ^ 31 = (u div 2 ^ 23) div 2 ^ 8"
    by (simp add: div_mult2_eq [symmetric])
  have "u = (u div 2 ^ 23) * 2 ^ 23 + u mod 2 ^ 23" by simp
  also have "u div 2 ^ 23 = (u div 2 ^ 31) * 2 ^ 8 + (u div 2 ^ 23) mod 2 ^ 8"
    unfolding d by simp
  finally have "u = (u div 2 ^ 31) * 2 ^ 31 + e * 2 ^ 23 + m"
    by (simp add: e m algebra_simps)
  moreover have "u div 2 ^ 31 = (if bit x 31 then 1 else 0)"
  proof -
    have "u div 2 ^ 31 < 2" using u by (simp add: div_less_iff_less_mult)
    then show ?thesis using b by auto
  qed
  ultimately have "u = (if bit x 31 then 2 ^ 31 else 0) + e * 2 ^ 23 + m" by simp
  moreover have "uint x = int u" by (simp add: u_def)
  ultimately show "uint x = (if bit x 31 then 2 ^ 31 else 0) + int e * 2 ^ 23 + int m"
    by (simp split: if_splits)
  show "e < 256" by (simp add: e)
  show "m < 2 ^ 23" by (simp add: m)
qed

lemma pow2_23_24: "pow2 23 = 2 ^ 23" "pow2 24 = 2 ^ 24"
  by (simp_all add: pow2_def)

lemma round_half_even_int: "round_half_even (of_int n) = n"
  by (rule round_half_even_eqI) simp

lemma round_mag_float_subnormal:
  assumes "0 < m" "m < 2 ^ 23"
  shows "round_mag 23 (- 126) (real m * pow2 (- 149)) = (int m, - 149)"
proof -
  let ?q = "real m * pow2 (- 149)"
  have q: "0 < ?q" using assms(1) pow2_pos [of "- 149"] by simp
  have "?q < 2 ^ 23 * pow2 (- 149)"
    using assms(2) pow2_pos [of "- 149"] by (intro mult_strict_right_mono) simp_all
  also have "\<dots> = pow2 (- 126)" using pow2_add [of 23 "- 149"] by (simp add: pow2_23_24)
  finally have "pow2 (ilog2 ?q) < pow2 (- 126)"
    using ilog2_bounds(1) [OF q] by linarith
  then have "ilog2 ?q < - 126"
    using pow2_mono [of "- 126" "ilog2 ?q"] by (cases "ilog2 ?q < - 126") simp_all
  then have k: "max (ilog2 ?q) (- 126) - int 23 = - 149" by simp
  have "?q / pow2 (- 149) = of_int (int m)" using pow2_pos [of "- 149"] by simp
  then have "round_half_even (?q / pow2 (- 149)) = int m"
    by (simp only: round_half_even_int)
  with k show ?thesis by (simp add: round_mag_def Let_def)
qed

lemma round_mag_float_normal:
  assumes "0 < e" "m < 2 ^ 23"
  shows "round_mag 23 (- 126) (real (2 ^ 23 + m) * pow2 (int e - 150))
           = (int (2 ^ 23 + m), int e - 150)"
proof (rule round_mag_eqI [where e = "int e - 127"])
  let ?p = "pow2 (int e - 150)"
  have p: "0 < ?p" by (rule pow2_pos)
  have "pow2 (int e - 127) = 2 ^ 23 * ?p"
    using pow2_add [of 23 "int e - 150"] by (simp add: pow2_23_24)
  also have "\<dots> \<le> real (2 ^ 23 + m) * ?p"
    using p by (intro mult_right_mono) simp_all
  finally show "pow2 (int e - 127) \<le> real (2 ^ 23 + m) * ?p" .
  have "real (2 ^ 23 + m) * ?p < 2 ^ 24 * ?p"
    using p assms(2) by (intro mult_strict_right_mono) simp_all
  also have "\<dots> = pow2 (int e - 127 + 1)"
    using pow2_add [of 24 "int e - 150"] by (simp add: pow2_23_24)
  finally show "real (2 ^ 23 + m) * ?p < pow2 (int e - 127 + 1)" .
  show "int e - 150 = max (int e - 127) (- 126) - int 23"
    using assms(1) by simp
  have "real (2 ^ 23 + m) * ?p / ?p = of_int (int (2 ^ 23 + m))"
    using p by simp
  then show "\<bar>real (2 ^ 23 + m) * ?p / ?p - of_int (int (2 ^ 23 + m))\<bar> < 1 / 2"
    by (simp only: diff_self abs_zero)
qed

lemma float_to_double_fields:
  fixes x :: "32 word"
  shows "float_to_double x =
     (let neg = bit x 31; s = (if neg then - 1 else 1); e = unat (drop_bit 23 x AND 0xFF); m = unat (x AND 0x7FFFFF)
      in if e = 255 then (if m = 0 then signed_inf neg else NaN)
         else if e = 0 then (if m = 0 then signed_zero neg else Fin (s * real m * pow2 (- 149)))
         else Fin (s * real (2 ^ 23 + m) * pow2 (int e - 150)))"
  by (simp add: float_to_double_def Let_def)

lemma double_to_float_inf:
  "double_to_float (signed_inf b) = word_of_int ((if b then 2 ^ 31 else 0) + 255 * 2 ^ 23 + 0)"
  by (simp add: double_to_float_def signed_inf_def)

lemma double_to_float_zero:
  "double_to_float (signed_zero b) = word_of_int ((if b then 2 ^ 31 else 0) + 0 * 2 ^ 23 + 0)"
  by (simp add: double_to_float_def signed_zero_def)

lemma double_to_float_Fin:
  assumes "0 < q" "round_mag 23 (- 126) q = (n, k)" "(k + 149) * 2 ^ 23 + n \<le> 0x7F800000"
  shows "double_to_float (Fin (if b then - q else q))
           = word_of_int ((if b then 2 ^ 31 else 0) + ((k + 149) * 2 ^ 23 + n))"
proof (cases b)
  case True
  have "\<bar>- q\<bar> = q" using assms(1) by simp
  with assms True show ?thesis
    by (simp add: double_to_float_def min_def del: abs_minus)
next
  case False
  have "\<bar>q\<bar> = q" using assms(1) by simp
  with assms False show ?thesis
    by (simp add: double_to_float_def min_def)
qed

lemma signed_mag:
  fixes a p :: real
  shows "(if b then - 1 else 1) * a * p = (if b then - (a * p) else a * p)"
  by simp

lemma double_to_float_inverse:
  fixes x :: "32 word"
  assumes "\<not> (unat (drop_bit 23 x AND 0xFF) = 255 \<and> unat (x AND 0x7FFFFF) \<noteq> 0)"
  shows "double_to_float (float_to_double x) = x"
proof -
  define e where "e = unat (drop_bit 23 x AND 0xFF)"
  define m where "m = unat (x AND 0x7FFFFF)"
  define b where "b = bit x 31"
  define sg :: int where "sg = (if b then 2 ^ 31 else 0)"
  note F = float_fields [of x, folded e_def m_def b_def]
  have "uint x = sg + int e * 2 ^ 23 + int m"
    using F(1) unfolding sg_def .
  then have x: "word_of_int (sg + int e * 2 ^ 23 + int m) = x"
    by (metis word_of_int_uint)
  have em: "e < 256" "m < 2 ^ 23" using F(2,3) by simp_all
  have nan: "\<not> (e = 255 \<and> m \<noteq> 0)" using assms unfolding e_def m_def .
  have fd: "float_to_double x =
      (if e = 255 then (if m = 0 then signed_inf b else NaN)
       else if e = 0
         then (if m = 0 then signed_zero b
               else Fin ((if b then - 1 else 1) * real m * pow2 (- 149)))
         else Fin ((if b then - 1 else 1) * real (2 ^ 23 + m) * pow2 (int e - 150)))"
    unfolding float_to_double_fields Let_def e_def m_def b_def ..
  consider (inf) "e = 255" "m = 0" | (zero) "e = 0" "m = 0" | (sub) "e = 0" "0 < m"
    | (norm) "0 < e" "e < 255"
    using nan em by linarith
  then have "double_to_float (float_to_double x) = word_of_int (sg + int e * 2 ^ 23 + int m)"
  proof cases
    case inf
    then have "float_to_double x = signed_inf b" by (simp add: fd)
    with inf show ?thesis by (simp only: double_to_float_inf sg_def) simp
  next
    case zero
    then have "float_to_double x = signed_zero b" by (simp add: fd)
    with zero show ?thesis by (simp only: double_to_float_zero sg_def) simp
  next
    case sub
    let ?q = "real m * pow2 (- 149)"
    have q: "0 < ?q" using sub(2) pow2_pos [of "- 149"] by simp
    have r: "round_mag 23 (- 126) ?q = (int m, - 149)"
      using sub(2) em(2) by (rule round_mag_float_subnormal)
    have le: "(- 149 + 149) * 2 ^ 23 + int m \<le> 0x7F800000" using em(2) by simp
    have "float_to_double x = Fin (if b then - ?q else ?q)"
      using sub unfolding fd signed_mag by simp
    then have "double_to_float (float_to_double x)
        = word_of_int ((if b then 2 ^ 31 else 0) + ((- 149 + 149) * 2 ^ 23 + int m))"
      by (simp only: double_to_float_Fin [OF q r le])
    with sub show ?thesis by (simp add: sg_def)
  next
    case norm
    let ?q = "real (2 ^ 23 + m) * pow2 (int e - 150)"
    have q: "0 < ?q" using pow2_pos [of "int e - 150"] by simp
    have r: "round_mag 23 (- 126) ?q = (int (2 ^ 23 + m), int e - 150)"
      using norm(1) em(2) by (rule round_mag_float_normal)
    have eq: "(int e - 150 + 149) * 2 ^ 23 + int (2 ^ 23 + m) = int e * 2 ^ 23 + int m"
      by (simp add: algebra_simps)
    have "int e * 2 ^ 23 + int m \<le> 0x7F800000"
      using norm(2) em(2) by simp
    then have le: "(int e - 150 + 149) * 2 ^ 23 + int (2 ^ 23 + m) \<le> 0x7F800000"
      by (simp only: eq)
    have "float_to_double x = Fin (if b then - ?q else ?q)"
      using norm unfolding fd signed_mag by simp
    then have "double_to_float (float_to_double x)
        = word_of_int ((if b then 2 ^ 31 else 0) + ((int e - 150 + 149) * 2 ^ 23 + int (2 ^ 23 + m)))"
      by (simp only: double_to_float_Fin [OF q r le])
    then show ?thesis by (simp only: eq sg_def add.assoc)
  qed
  with x show ?thesis by simp
qed

lemma float_exact_iff:
  "float_to_double (double_to_float v) = v \<longleftrightarrow> (\<exists>x. v = float_to_double x)"
proof
  assume "float_to_double (double_to_float v) = v"
  then show "\<exists>x. v = float_to_double x" by metis
next
  assume "\<exists>x. v = float_to_double x"
  then obtain x where v: "v = float_to_double x" ..
  show "float_to_double (double_to_float v) = v"
  proof (cases "unat (drop_bit 23 x AND 0xFF) = 255 \<and> unat (x AND 0x7FFFFF) \<noteq> 0")
    case True
    then have "v = NaN" by (simp add: v float_to_double_def Let_def)
    moreover have "float_to_double 0x7FC00000 = NaN"
      by (simp add: float_to_double_def Let_def)
    ultimately show ?thesis by (simp add: double_to_float_def)
  next
    case False
    then show ?thesis by (simp add: v double_to_float_inverse)
  qed
qed

section \<open>Round trip through \<^verbatim>\<open>WriteMapped\<close> and \<^verbatim>\<open>ReadMapped\<close>\<close>

subsection \<open>Concrete values\<close>

lemma dbl_1_100: "dbl (1 / 100) = Fin (5764607523034235 / 576460752303423488)"
  unfolding dbl_def
  using round64_eqI [where e = "- 7" and n = 5764607523034235 and q = "1 / 100" and neg = False]
  by (simp add: pow2_def)

lemma dbl_59_100: "dbl (59 / 100) = Fin (5314247560297185 / 9007199254740992)"
  unfolding dbl_def
  using round64_eqI [where e = "- 1" and n = 5314247560297185 and q = "59 / 100" and neg = False]
  by (simp add: pow2_def)

lemma div_59: "fdiv (Fin (5314247560297185 / 9007199254740992)) (Fin (5764607523034235 / 576460752303423488))
   = Fin (8303511812964351 / 140737488355328)"
  unfolding fdiv_def
  using round64_eqI [where e = 5 and n = 8303511812964351 and neg = False
      and q = "(5314247560297185 / 9007199254740992) / (5764607523034235 / 576460752303423488)"]
  by (simp add: pow2_def)

lemma mul_58: "fmul (Fin 58) (Fin (5764607523034235 / 576460752303423488))
   = Fin (5224175567749775 / 9007199254740992)"
  unfolding fmul_def
  using round64_eqI [where e = "- 1" and n = 5224175567749775 and neg = False
      and q = "58 * (5764607523034235 / 576460752303423488)"]
  by (simp add: pow2_def)

lemma dbl_1_10: "dbl (1 / 10) = Fin (3602879701896397 / 36028797018963968)"
  unfolding dbl_def
  using round64_eqI [where e = "- 4" and n = 7205759403792794 and q = "1 / 10" and neg = False]
  by (simp add: pow2_def)

lemma float_1_10: "double_to_float (Fin (3602879701896397 / 36028797018963968)) = 0x3DCCCCCD"
proof -
  have r: "round_mag 23 (- 126) (3602879701896397 / 36028797018963968) = (13421773, - 27)"
    by (rule round_mag_eqI [where e = "- 4"]) (simp_all add: pow2_def)
  from double_to_float_Fin [where b = False, OF _ r]
  show ?thesis by simp
qed

lemma double_3DCCCCCD: "float_to_double 0x3DCCCCCD = Fin (13421773 / 134217728)"
  by (simp add: float_to_double_def pow2_def bit_iff_odd drop_bit_eq_div)

subsection \<open>The round trip\<close>

text \<open>
  C1, as amended. Take a frame with room for the value and the scale factors of one of
  the quantity tables. For a finite value \<open>v\<close> with \<open>\<bar>v\<bar> \<le> max * scale\<close>, where \<open>max\<close> is the
  maximum of the integer type of the resolution, \<open>WriteMapped\<close> returns, and \<open>ReadMapped\<close>
  at the same resolution and scales, on the bytes written, returns a finite value whose
  distance to \<open>v\<close> is below \<open>scale * (1 + 2 ^ - 20)\<close>: one unit of the scale, up to the
  rounding of the division and of the multiplication. At the resolution \<open>kFloat\<close> the
  value read is \<open>v\<close> converted to \<open>float\<close> and back, for every \<open>v\<close>; it is \<open>v\<close> itself exactly
  when \<open>v\<close> is the value of some \<open>float\<close>.
\<close>

theorem quantize_roundtrip:
  assumes len: "length (fdata f) = 64" and room: "unat (fsize f) + ResolutionSize res \<le> 64"
    and sc: "(s8, s16, s32) \<in> set quantity_scales"
  shows "(\<forall>w. (res, w) \<in> {(kInt8, 8), (kInt16, 16), (kInt32, 32)} \<and> isfinite v
             \<and> \<bar>fval v\<bar> \<le> of_int (T_max w) * fval (scale_at res (s8, s16, s32)) \<longrightarrow>
          (\<exists>f'. WriteMapped v s8 s16 s32 res f = (Returned (), f')
             \<and> (\<forall>p. mp_data p = fdata f' \<and> mp_size p = fsize f' \<and> mp_offset p = unat (fsize f) \<longrightarrow>
                  (\<exists>d. ReadMapped res s8 s16 s32 p
                          = (Returned d, p\<lparr>mp_offset := mp_offset p + ResolutionSize res\<rparr>)
                      \<and> isfinite d
                      \<and> \<bar>fval d - fval v\<bar> < fval (scale_at res (s8, s16, s32)) * (1 + 1 / 2 ^ 20)))))
       \<and> (res = kFloat \<longrightarrow>
          (\<exists>f'. WriteMapped v s8 s16 s32 res f = (Returned (), f')
             \<and> (\<forall>p. mp_data p = fdata f' \<and> mp_size p = fsize f' \<and> mp_offset p = unat (fsize f) \<longrightarrow>
                  ReadMapped res s8 s16 s32 p
                    = (Returned (float_to_double (double_to_float v)),
                       p\<lparr>mp_offset := mp_offset p + ResolutionSize res\<rparr>))))
       \<and> (float_to_double (double_to_float v) = v \<longleftrightarrow> (\<exists>x. v = float_to_double x))"
    (is "?I \<and> ?F \<and> ?E")
proof -
  have i: ?I
  proof (intro allI impI)
    fix w
    assume h: "(res, w) \<in> {(kInt8, 8), (kInt16, 16), (kInt32, 32)} \<and> isfinite v
             \<and> \<bar>fval v\<bar> \<le> of_int (T_max w) * fval (scale_at res (s8, s16, s32))"
    let ?s = "scale_at res (s8, s16, s32)"
    let ?n = "ResolutionSize res"
    from h have rw: "(res, w, ?n) \<in> {(kInt8, 8, 1), (kInt16, 16, 2), (kInt32, 32, 4)}"
      and w: "w \<in> {8, 16, 32}" and r: "res \<in> {kInt8, kInt16, kInt32}"
      by auto
    from quantity_scales_ok [OF sc r]
    have ok: "isfinite ?s" "pow2 (- 64) \<le> fval ?s" "fval ?s \<le> pow2 64"
      by (simp_all add: scale_ok_def)
    from h have v: "isfinite v" and rng: "\<bar>fval v\<bar> \<le> of_int (T_max w) * fval ?s"
      by simp_all
    from quantize_roundtrip_bound [OF w v ok rng]
    obtain k where k: "Saturate w v ?s = Inr k" "- T_max w \<le> k" "k \<le> T_max w"
      "isfinite (fmul (Nanify w k) ?s)"
      "\<bar>fval (fmul (Nanify w k) ?s) - fval v\<bar> < fval ?s * (1 + 1 / 2 ^ 20)"
      by blast
    from WriteMapped_int_roundtrip [OF rw k(1,2,3) len room] k(4,5)
    show "\<exists>f'. WriteMapped v s8 s16 s32 res f = (Returned (), f')
             \<and> (\<forall>p. mp_data p = fdata f' \<and> mp_size p = fsize f' \<and> mp_offset p = unat (fsize f) \<longrightarrow>
                  (\<exists>d. ReadMapped res s8 s16 s32 p
                          = (Returned d, p\<lparr>mp_offset := mp_offset p + ResolutionSize res\<rparr>)
                      \<and> isfinite d
                      \<and> \<bar>fval d - fval v\<bar> < fval ?s * (1 + 1 / 2 ^ 20)))"
      by blast
  qed
  have f: ?F
  proof
    assume res: "res = kFloat"
    with room have "unat (fsize f) + 4 \<le> 64" by simp
    from WriteMapped_float_roundtrip [OF len this, of v s8 s16 s32] res
    show "\<exists>f'. WriteMapped v s8 s16 s32 res f = (Returned (), f')
             \<and> (\<forall>p. mp_data p = fdata f' \<and> mp_size p = fsize f' \<and> mp_offset p = unat (fsize f) \<longrightarrow>
                  ReadMapped res s8 s16 s32 p
                    = (Returned (float_to_double (double_to_float v)),
                       p\<lparr>mp_offset := mp_offset p + ResolutionSize res\<rparr>))"
      by simp blast
  qed
  have e: ?E by (rule float_exact_iff)
  from i f e show ?thesis by (intro conjI)
qed

theorem quantize_roundtrip_witness:
  "length (fdata empty_frame) = 64 \<and> unat (fsize empty_frame) + ResolutionSize kInt16 \<le> 64
   \<and> (dbl (1 / 100), dbl (1 / 10000), dbl (1 / 100000)) \<in> set quantity_scales
   \<and> isfinite (Fin 1) \<and> \<bar>fval (Fin 1)\<bar> \<le> of_int (T_max 16) * fval (dbl (1 / 10000))
   \<and> (\<exists>f'. WriteMapped (Fin 1) (dbl (1 / 100)) (dbl (1 / 10000)) (dbl (1 / 100000)) kInt16 empty_frame
              = (Returned (), f')
          \<and> (\<exists>d. ReadMapped kInt16 (dbl (1 / 100)) (dbl (1 / 10000)) (dbl (1 / 100000))
                    (MultiplexParser_new (fdata f') (fsize f'))
                   = (Returned d, (MultiplexParser_new (fdata f') (fsize f'))\<lparr>mp_offset := 2\<rparr>)
                \<and> isfinite d \<and> \<bar>fval d - 1\<bar> < fval (dbl (1 / 10000)) * (1 + 1 / 2 ^ 20)))"
proof -
  have h: "length (fdata empty_frame) = 64" "unat (fsize empty_frame) + ResolutionSize kInt16 \<le> 64"
    "(dbl (1 / 100), dbl (1 / 10000), dbl (1 / 100000)) \<in> set quantity_scales"
    by (simp_all add: empty_frame_simps quantity_scales_def position_scales_def)
  have v: "isfinite (Fin 1)" "\<bar>fval (Fin 1)\<bar> \<le> of_int (T_max 16) * fval (dbl (1 / 10000))"
    by (simp_all add: dbl_1_10000 T_limits)
  from quantize_roundtrip [OF h, of "Fin 1"] v
  obtain f' where f': "WriteMapped (Fin 1) (dbl (1 / 100)) (dbl (1 / 10000)) (dbl (1 / 100000)) kInt16 empty_frame
              = (Returned (), f')"
     "\<forall>p. mp_data p = fdata f' \<and> mp_size p = fsize f' \<and> mp_offset p = unat (fsize empty_frame) \<longrightarrow>
          (\<exists>d. ReadMapped kInt16 (dbl (1 / 100)) (dbl (1 / 10000)) (dbl (1 / 100000)) p
                  = (Returned d, p\<lparr>mp_offset := mp_offset p + ResolutionSize kInt16\<rparr>)
              \<and> isfinite d
              \<and> \<bar>fval d - fval (Fin 1)\<bar> < fval (scale_at kInt16 (dbl (1 / 100), dbl (1 / 10000), dbl (1 / 100000))) * (1 + 1 / 2 ^ 20))"
    by auto
  from f'(2) [rule_format, of "MultiplexParser_new (fdata f') (fsize f')"]
  have "\<exists>d. ReadMapped kInt16 (dbl (1 / 100)) (dbl (1 / 10000)) (dbl (1 / 100000))
                    (MultiplexParser_new (fdata f') (fsize f'))
                   = (Returned d, (MultiplexParser_new (fdata f') (fsize f'))\<lparr>mp_offset := 2\<rparr>)
                \<and> isfinite d \<and> \<bar>fval d - 1\<bar> < fval (dbl (1 / 10000)) * (1 + 1 / 2 ^ 20)"
    by (simp add: MultiplexParser_new_def empty_frame_simps numeral_2_eq_2)
  with f'(1) h v show ?thesis by blast
qed

text \<open>
  The claim as stated fails in both parts. At the int8 scale of a position, \<open>0.01\<close>, the
  value \<open>0.59\<close> is in range; its quotient by the scale rounds to \<open>58.99999999999999\<close> and is
  truncated to \<open>58\<close>, and \<open>58 * 0.01\<close> lies further from \<open>0.59\<close> than the scale, by a few
  units in the last place. And the double \<open>0.1\<close> is not the value of a \<open>float\<close>: converted to
  \<open>float\<close> and back it is \<open>0.100000001490116\<close>.
\<close>

theorem quantize_roundtrip_counterexample:
  "scale_at kInt8 position_scales = dbl (1 / 100)
   \<and> isfinite (dbl (59 / 100))
   \<and> \<bar>fval (dbl (59 / 100))\<bar> \<le> of_int (T_max 8) * fval (dbl (1 / 100))
   \<and> Saturate 8 (dbl (59 / 100)) (dbl (1 / 100)) = Inr 58
   \<and> fval (dbl (1 / 100)) < \<bar>fval (fmul (Nanify 8 58) (dbl (1 / 100))) - fval (dbl (59 / 100))\<bar>
   \<and> float_to_double (double_to_float (dbl (1 / 10))) \<noteq> dbl (1 / 10)"
proof -
  have 1: "scale_at kInt8 position_scales = dbl (1 / 100)"
    by (simp add: position_scales_def)
  have 2: "isfinite (dbl (59 / 100))"
    by (simp add: dbl_59_100)
  have 3: "\<bar>fval (dbl (59 / 100))\<bar> \<le> of_int (T_max 8) * fval (dbl (1 / 100))"
    by (simp add: dbl_59_100 dbl_1_100 T_limits)
  have 4: "Saturate 8 (dbl (59 / 100)) (dbl (1 / 100)) = Inr 58"
    by (simp add: Saturate_finite_cases T_limits dbl_59_100 dbl_1_100 div_59 trunc_def)
  have 5: "fval (dbl (1 / 100)) < \<bar>fval (fmul (Nanify 8 58) (dbl (1 / 100))) - fval (dbl (59 / 100))\<bar>"
    by (simp add: Nanify_def T_limits dbl_59_100 dbl_1_100 mul_58)
  have 6: "float_to_double (double_to_float (dbl (1 / 10))) \<noteq> dbl (1 / 10)"
    by (simp add: dbl_1_10 float_1_10 double_3DCCCCCD)
  from 1 2 3 4 5 6 show ?thesis by (intro conjI)
qed

section \<open>Wrapper\<close>

lemma make_drivers_not_assert:
  "make_drivers api dev_name moteus_id i drivers \<noteq> Inl AssertionFailed"
proof (induction api dev_name moteus_id i drivers rule: make_drivers.induct)
  case (1 api dev_name moteus_id i drivers)
  then show ?case
    by (subst make_drivers.simps) simp
qed

text \<open>
  C10. With two vectors of equal length the condition of the constructor's assertion,
  \<open>dev_name.size() != moteus_id.size()\<close>, is false and construction fails the assertion;
  the assertion fails in no other case, that is, it passes exactly when the lengths
  differ.
\<close>

theorem MoteusWrapper_assert_inverted:
  "(length dev_name = length moteus_id \<longrightarrow> MoteusWrapper api dev_name moteus_id = Inl AssertionFailed)
   \<and> (MoteusWrapper api dev_name moteus_id \<noteq> Inl AssertionFailed
        \<longleftrightarrow> length dev_name \<noteq> length moteus_id)"
proof (cases "length dev_name = length moteus_id")
  case True
  then show ?thesis by (simp add: MoteusWrapper_def)
next
  case False
  then have "MoteusWrapper api dev_name moteus_id = make_drivers api dev_name moteus_id 0 []"
    by (simp add: MoteusWrapper_def)
  with False show ?thesis by (simp add: make_drivers_not_assert)
qed

theorem MoteusWrapper_assert_inverted_witness:
  "length [''can0'', ''can1''] = length [1, 2 :: int]
   \<and> MoteusWrapper (\<lambda>d i. (d, i)) [''can0'', ''can1''] [1, 2] = Inl AssertionFailed
   \<and> MoteusWrapper (\<lambda>d i. (d, i)) [''can0''] [1, 2] = Inr [(''can0'', 1)]"
proof -
  have "MoteusWrapper (\<lambda>d i. (d, i)) [''can0''] [1, 2] = Inr [(''can0'', 1)]"
    by (simp add: MoteusWrapper_def make_drivers.simps)
  with MoteusWrapper_assert_inverted [of "[''can0'', ''can1'']" "[1, 2]" "\<lambda>d i. (d, i)"]
  show ?thesis by simp
qed

end
